theory Spec2Isabelle
  imports Main "HOL-Library.Sublist"
begin

section \<open>Text and the regular expressions of the fixer\<close>

text \<open>
  Python text is modelled as a list of 8-bit characters (the code points 0 to 255).
  The regular expressions of \<^verbatim>\<open>dsrtos_dynamic_fixer.py\<close> are few and simple enough to
  be written out as matching functions; one scanner gives \<^verbatim>\<open>re.findall\<close> and
  \<^verbatim>\<open>re.sub\<close> their left-to-right, non-overlapping reading.
\<close>

definition nl :: char where
  "nl = CHR 0x0A"

definition bslash :: char where
  "bslash = CHR 0x5C"

definition dquote :: char where
  "dquote = CHR 0x22"

definition squote :: char where
  "squote = CHR 0x27"

definition bquote :: char where
  "bquote = CHR 0x60"

text \<open>The class \<^verbatim>\<open>\s\<close> of a Python 3 text pattern, on the code points below 256.\<close>

definition is_space :: "char \<Rightarrow> bool" where
  "is_space c \<longleftrightarrow>
     c = CHR 0x09 \<or> c = CHR 0x0A \<or> c = CHR 0x0B \<or> c = CHR 0x0C \<or> c = CHR 0x0D \<or>
     c = CHR 0x1C \<or> c = CHR 0x1D \<or> c = CHR 0x1E \<or> c = CHR 0x1F \<or> c = CHR 0x20 \<or>
     c = CHR 0x85 \<or> c = CHR 0xA0"

text \<open>\<^verbatim>\<open>sub in s\<close> on text.\<close>

fun contains :: "string \<Rightarrow> string \<Rightarrow> bool" where
  "contains sub [] = (sub = [])"
| "contains sub (c # cs) = (prefix sub (c # cs) \<or> contains sub cs)"

text \<open>
  A matcher is a pattern tried at one position: it receives whether the position is the
  start of a line and the text from the position on, and answers with group 1 and the
  text left after the match.
\<close>

type_synonym matcher = "bool \<Rightarrow> string \<Rightarrow> (string \<times> string) option"

datatype piece = Lit char | Hit string string

definition consume :: "matcher \<Rightarrow> bool \<Rightarrow> string \<Rightarrow> (string \<times> string) option" where
  "consume m bol s =
     (case m bol s of
        None \<Rightarrow> None
      | Some (g, rest) \<Rightarrow> if length rest < length s then Some (g, rest) else None)"

text \<open>
  The scan of \<^verbatim>\<open>re.findall\<close> and \<^verbatim>\<open>re.sub\<close>: at each position the pattern is
  tried; a match is recorded with its text and its group 1 and the scan goes on behind it,
  otherwise one character is passed over. No pattern of the program matches the empty text.
\<close>

function re_scan :: "matcher \<Rightarrow> bool \<Rightarrow> string \<Rightarrow> piece list" where
  "re_scan m bol [] = []"
| "re_scan m bol (c # cs) =
     (case consume m bol (c # cs) of
        Some (g, rest) \<Rightarrow>
          Hit (take (Suc (length cs) - length rest) (c # cs)) g
            # re_scan m (last (take (Suc (length cs) - length rest) (c # cs)) = nl) rest
      | None \<Rightarrow> Lit c # re_scan m (c = nl) cs)"
  by pat_completeness auto
termination
  by (relation "measure (\<lambda>(m, bol, s). length s)")
     (auto simp: consume_def split: option.splits if_splits)

fun groups :: "piece list \<Rightarrow> string list" where
  "groups [] = []"
| "groups (Lit c # ps) = groups ps"
| "groups (Hit t g # ps) = g # groups ps"

definition re_findall :: "matcher \<Rightarrow> string \<Rightarrow> string list" where
  "re_findall m s = groups (re_scan m True s)"

fun substitute :: "(string \<Rightarrow> string \<Rightarrow> string) \<Rightarrow> piece list \<Rightarrow> string" where
  "substitute r [] = []"
| "substitute r (Lit c # ps) = c # substitute r ps"
| "substitute r (Hit t g # ps) = r t g @ substitute r ps"

definition re_sub :: "matcher \<Rightarrow> (string \<Rightarrow> string \<Rightarrow> string) \<Rightarrow> string \<Rightarrow> string" where
  "re_sub m r s = substitute r (re_scan m True s)"

text \<open>
  \<^verbatim>\<open>re.search\<close>: is there a position at which the pattern matches. The pattern is
  given as a test of one position.
\<close>

fun re_search :: "(bool \<Rightarrow> string \<Rightarrow> bool) \<Rightarrow> bool \<Rightarrow> string \<Rightarrow> bool" where
  "re_search m bol [] = m bol []"
| "re_search m bol (c # cs) = (m bol (c # cs) \<or> re_search m (c = nl) cs)"

text \<open>
  The pattern \<^verbatim>\<open>PRE([^q]+)qSUF\<close> of the extraction rules: the literal \<open>pre\<close>, the longest
  run of characters other than the closing quote \<open>q\<close> (at least one), the quote, and the
  literal \<open>suf\<close>. A shorter run is followed by a character that is not the quote, so the
  longest run is the only candidate.
\<close>

definition m_quoted :: "string \<Rightarrow> char \<Rightarrow> string \<Rightarrow> matcher" where
  "m_quoted pre q suf bol s =
     (if prefix pre s then
        (let r = drop (length pre) s;
             body = takeWhile (\<lambda>c. c \<noteq> q) r;
             r' = dropWhile (\<lambda>c. c \<noteq> q) r
         in if body \<noteq> [] \<and> prefix (q # suf) r'
            then Some (body, drop (Suc (length suf)) r') else None)
      else None)"

section \<open>The build driver\<close>

text \<open>
  What one \<^verbatim>\<open>subprocess.run\<close> call does: it completes with a return code and the two
  captured streams, or it raises an exception of class \<^verbatim>\<open>Exception\<close>, of which the
  program only uses the text \<^verbatim>\<open>str(e)\<close>. Interrupts from outside the program are not
  part of the model.
\<close>

datatype proc_result = Completed int string string | Raised string

text \<open>
  \<^verbatim>\<open>get_compilation_output\<close>: the result is the pair the method returns. The two
  arguments are what \<^verbatim>\<open>make clean\<close> and \<^verbatim>\<open>make\<close> do when they are run; the second is
  only run when the first has not raised.
\<close>

definition get_compilation_output :: "proc_result \<Rightarrow> proc_result \<Rightarrow> bool \<times> string" where
  "get_compilation_output clean build =
     (case clean of
        Raised e \<Rightarrow> (False, e)
      | Completed rc0 out0 err0 \<Rightarrow>
          (case build of
             Raised e \<Rightarrow> (False, e)
           | Completed rc out err \<Rightarrow> (rc = 0, out @ err)))"

section \<open>The project state\<close>

text \<open>
  The project on disk, as one value handed from synthesizer to synthesizer: the text of
  \<^verbatim>\<open>Makefile\<close> (the model covers the projects that have this file), the regular files
  of the source and include trees as pairs of path and text in the order in which a
  directory walk lists them, and the directories that exist. Reading and writing the
  files of this value succeed: new files are only created in \<^verbatim>\<open>src\<close>, which exists once
  the backup has been taken, and in \<^verbatim>\<open>include/common\<close>, which the program makes first;
  failures of the operating system on a path that exists (an unreadable file, text that
  cannot be decoded, a name the system rejects) are not part of the model. The two ways in
  which the program itself ends with an exception on such a project are part of it: the
  backup of a missing directory, and a replacement template that \<^verbatim>\<open>re.sub\<close> rejects.
\<close>

datatype error = Backup_failed | Template_rejected

record project =
  makefile :: string
  files :: "(string \<times> string) list"
  dirs :: "string list"

text \<open>\<^verbatim>\<open>Path("src").rglob("*.c")\<close> lists the files below \<^verbatim>\<open>src\<close> whose name ends in \<^verbatim>\<open>.c\<close>.\<close>

definition is_src_c :: "string \<Rightarrow> bool" where
  "is_src_c p \<longleftrightarrow> prefix ''src/'' p \<and> suffix ''.c'' p"

text \<open>
  What the program takes from its surroundings: the two runs of the build tool in a round
  (given the round and the project), the order in which Python iterates over \<^verbatim>\<open>set(xs)\<close>,
  the date stamp of the generated files, \<^verbatim>\<open>str.title\<close>, the place that a directory walk
  gives to a newly created file among the files listed so far, and the group number that
  the installed Python reads from the name in \<^verbatim>\<open>\g<name>\<close> (\<open>None\<close> when it rejects the
  name).
\<close>

record env =
  run_clean :: "nat \<Rightarrow> project \<Rightarrow> proc_result"
  run_make :: "nat \<Rightarrow> project \<Rightarrow> proc_result"
  set_order :: "string list \<Rightarrow> string list"
  today :: string
  title :: "string \<Rightarrow> string"
  new_position :: "string \<Rightarrow> string list \<Rightarrow> nat"
  group_index :: "string \<Rightarrow> nat option"

text \<open>
  Writing a file: an existing file gets the new text in its place of the listing; a new
  file is listed at the place the directory walk gives it.
\<close>

definition write_file ::
  "env \<Rightarrow> string \<Rightarrow> string \<Rightarrow> (string \<times> string) list \<Rightarrow> (string \<times> string) list" where
  "write_file env p c fs =
     (if p \<in> fst ` set fs then map (\<lambda>(q, d). if q = p then (q, c) else (q, d)) fs
      else (let k = min (new_position env p (map fst fs)) (length fs)
            in take k fs @ (p, c) # drop k fs))"

text \<open>Running the steps of a loop until one of them raises.\<close>

fun fold_result :: "('a \<Rightarrow> 's \<Rightarrow> error + 's) \<Rightarrow> 'a list \<Rightarrow> 's \<Rightarrow> error + 's" where
  "fold_result f [] s = Inr s"
| "fold_result f (x # xs) s =
     (case f x s of Inl e \<Rightarrow> Inl e | Inr s' \<Rightarrow> fold_result f xs s')"

fun map_result :: "('a \<Rightarrow> error + 'b) \<Rightarrow> 'a list \<Rightarrow> error + 'b list" where
  "map_result f [] = Inr []"
| "map_result f (x # xs) =
     (case f x of
        Inl e \<Rightarrow> Inl e
      | Inr y \<Rightarrow> (case map_result f xs of Inl e \<Rightarrow> Inl e | Inr ys \<Rightarrow> Inr (y # ys)))"

definition unlines :: "string list \<Rightarrow> string" where
  "unlines ls = concat (map (\<lambda>l. l @ [nl]) ls)"

section \<open>Replacement templates\<close>

text \<open>
  \<^verbatim>\<open>re.sub\<close> with a text as replacement reads the text as a template before it looks
  for a match (\<^verbatim>\<open>parse_template\<close> of the standard library): a backslash and the character
  behind it form one token. \<^verbatim>\<open>\g<name>\<close> and \<^verbatim>\<open>\1\<close> to \<^verbatim>\<open>\99\<close> refer to a group and are
  rejected when the pattern has no such group; \<^verbatim>\<open>\0\<close> with up to two octal digits and three
  octal digits stand for a character; \<^verbatim>\<open>\a \b \f \n \r \t \v \\\<close> stand for their control
  character or the backslash; a backslash before any other ASCII letter and a backslash at
  the end are rejected; a backslash before any other character stays as it is.
\<close>

datatype part = Text string | Group nat

definition is_digit :: "char \<Rightarrow> bool" where
  "is_digit c \<longleftrightarrow> c \<in> set ''0123456789''"

definition is_octdigit :: "char \<Rightarrow> bool" where
  "is_octdigit c \<longleftrightarrow> c \<in> set ''01234567''"

definition digit_value :: "char \<Rightarrow> nat" where
  "digit_value c = of_char c - 48"

definition is_ascii_letter :: "char \<Rightarrow> bool" where
  "is_ascii_letter c \<longleftrightarrow>
     (let n = (of_char c :: nat) in (65 \<le> n \<and> n \<le> 90) \<or> (97 \<le> n \<and> n \<le> 122))"

definition escape_char :: "char \<Rightarrow> char option" where
  "escape_char c =
     (if c = CHR ''a'' then Some (CHR 0x07)
      else if c = CHR ''b'' then Some (CHR 0x08)
      else if c = CHR ''f'' then Some (CHR 0x0C)
      else if c = CHR ''n'' then Some (CHR 0x0A)
      else if c = CHR ''r'' then Some (CHR 0x0D)
      else if c = CHR ''t'' then Some (CHR 0x09)
      else if c = CHR ''v'' then Some (CHR 0x0B)
      else if c = bslash then Some bslash
      else None)"

text \<open>
  The name of \<^verbatim>\<open>\g<name>\<close>: the tokens up to the closing bracket, and the number of
  characters read, the bracket included.
\<close>

fun get_until :: "string \<Rightarrow> (string \<times> nat) option" where
  "get_until [] = None"
| "get_until [c] = (if c = CHR ''>'' then Some ([], 1) else None)"
| "get_until (c # d # r) =
     (if c = CHR ''>'' then Some ([], 1)
      else if c = bslash then map_option (\<lambda>(name, k). (c # d # name, k + 2)) (get_until r)
      else map_option (\<lambda>(name, k). (c # name, k + 1)) (get_until (d # r)))"

definition group_part :: "nat \<Rightarrow> nat \<Rightarrow> error + part list \<Rightarrow> error + part list" where
  "group_part ngroups index rest =
     (if index > ngroups then Inl Template_rejected
      else (case rest of Inl e \<Rightarrow> Inl e | Inr ps \<Rightarrow> Inr (Group index # ps)))"

definition text_part :: "string \<Rightarrow> error + part list \<Rightarrow> error + part list" where
  "text_part s rest = (case rest of Inl e \<Rightarrow> Inl e | Inr ps \<Rightarrow> Inr (Text s # ps))"

function parse_template :: "env \<Rightarrow> nat \<Rightarrow> string \<Rightarrow> error + part list" where
  "parse_template env ngroups [] = Inr []"
| "parse_template env ngroups (c # cs) =
     (if c \<noteq> bslash then text_part [c] (parse_template env ngroups cs)
      else
        (case cs of
           [] \<Rightarrow> Inl Template_rejected
         | d # ds \<Rightarrow>
             if d = CHR ''g'' then
               (case ds of
                  [] \<Rightarrow> Inl Template_rejected
                | a # r \<Rightarrow>
                    if a = CHR ''<'' then
                      (case get_until r of
                         None \<Rightarrow> Inl Template_rejected
                       | Some (name, k) \<Rightarrow>
                           if name = [] then Inl Template_rejected
                           else
                             (case group_index env name of
                                None \<Rightarrow> Inl Template_rejected
                              | Some index \<Rightarrow>
                                  group_part ngroups index
                                    (parse_template env ngroups (drop k r))))
                    else Inl Template_rejected)
             else if d = CHR ''0'' then
               (let k = length (takeWhile is_octdigit (take 2 ds));
                    v = foldl (\<lambda>a x. 8 * a + digit_value x) 0 (take k ds)
                in text_part [char_of (v mod 256)] (parse_template env ngroups (drop k ds)))
             else if is_digit d then
               (case ds of
                  [] \<Rightarrow> group_part ngroups (digit_value d) (parse_template env ngroups ds)
                | e # r \<Rightarrow>
                    if is_digit e then
                      (if is_octdigit d \<and> is_octdigit e \<and> r \<noteq> [] \<and> is_octdigit (hd r) then
                         (let v = 64 * digit_value d + 8 * digit_value e + digit_value (hd r)
                          in if v > 255 then Inl Template_rejected
                             else text_part [char_of v] (parse_template env ngroups (tl r)))
                       else group_part ngroups (10 * digit_value d + digit_value e)
                              (parse_template env ngroups r))
                    else group_part ngroups (digit_value d) (parse_template env ngroups ds))
             else
               (case escape_char d of
                  Some x \<Rightarrow> text_part [x] (parse_template env ngroups ds)
                | None \<Rightarrow>
                    if is_ascii_letter d then Inl Template_rejected
                    else text_part [c, d] (parse_template env ngroups ds))))"
  by pat_completeness auto

termination
  by (relation "measure (\<lambda>(env, ngroups, s). length s)") auto

text \<open>The text a template stands for at a match with text \<open>t\<close> and group 1 \<open>g\<close>.\<close>

fun expand :: "part list \<Rightarrow> string \<Rightarrow> string \<Rightarrow> string" where
  "expand [] t g = []"
| "expand (Text s # ps) t g = s @ expand ps t g"
| "expand (Group k # ps) t g = (if k = 0 then t else g) @ expand ps t g"

definition re_sub_template ::
  "env \<Rightarrow> nat \<Rightarrow> matcher \<Rightarrow> string \<Rightarrow> string \<Rightarrow> error + string" where
  "re_sub_template env ngroups m template s =
     (case parse_template env ngroups template of
        Inl e \<Rightarrow> Inl e
      | Inr parts \<Rightarrow> Inr (re_sub m (expand parts) s))"

section \<open>Manifest insertion\<close>

text \<open>
  The pattern \<^verbatim>\<open>(LABEL\s*=\s*\\)\<close>: the label, blanks, an equals sign, blanks and a
  backslash. Group 1 is the whole match.
\<close>

definition m_label :: "string \<Rightarrow> matcher" where
  "m_label lbl bol s =
     (if prefix lbl s then
        (case dropWhile is_space (drop (length lbl) s) of
           [] \<Rightarrow> None
         | e # r \<Rightarrow>
             if e = CHR ''='' then
               (case dropWhile is_space r of
                  [] \<Rightarrow> None
                | b # r' \<Rightarrow>
                    if b = bslash then Some (take (length s - length r') s, r') else None)
             else None)
      else None)"

text \<open>
  The replacement template \<^verbatim>\<open>\1\n    {source_path} \\\<close>, with the path put into it as
  it is: Python reads backslash sequences of the path as part of the template.
\<close>

definition manifest_template :: "string \<Rightarrow> string" where
  "manifest_template source_path =
     [bslash, CHR ''1'', bslash, CHR ''n''] @ ''    '' @ source_path @ '' '' @ [bslash, bslash]"

text \<open>
  \<^verbatim>\<open>add_source_to_makefile\<close> on the text of the manifest: the text to be written back,
  or the exception of \<^verbatim>\<open>re.sub\<close>. When the path is already contained, nothing is written.
\<close>

definition add_source_text :: "env \<Rightarrow> string \<Rightarrow> string \<Rightarrow> error + string" where
  "add_source_text env source_name content =
     (let source_path = ''src/'' @ source_name in
      if contains source_path content then Inr content
      else if contains ''PHASE1_C_SOURCES'' content
      then re_sub_template env 1 (m_label ''PHASE1_C_SOURCES'')
             (manifest_template source_path) content
      else re_sub_template env 1 (m_label ''C_SOURCES'')
             (manifest_template source_path) content)"

definition add_source_to_makefile :: "env \<Rightarrow> string \<Rightarrow> project \<Rightarrow> error + project" where
  "add_source_to_makefile env source_name st =
     (case add_source_text env source_name (makefile st) of
        Inl e \<Rightarrow> Inl e
      | Inr content \<Rightarrow> Inr (st\<lparr>makefile := content\<rparr>))"

text \<open>The number of places at which a path occurs in a text.\<close>

fun count_refs :: "string \<Rightarrow> string \<Rightarrow> nat" where
  "count_refs p [] = (if p = [] then 1 else 0)"
| "count_refs p (c # cs) = (if prefix p (c # cs) then 1 else 0) + count_refs p cs"

section \<open>Missing build rules\<close>

definition generate_stubs_file :: "env \<Rightarrow> string \<Rightarrow> string" where
  "generate_stubs_file env filename = unlines
     [''/**'',
     '' * @file '' @ filename,
     '' * @brief DSRTOS Auto-Generated Stub Implementations'',
     '' * @version 1.0.0'',
     '' * @date '' @ today env,
     '' * '',
     '' * MISRA C:2012, DO-178C, IEC 62304, IEC 61508 Compliant'',
     '' * Production-ready stub implementations for DSRTOS kernel'',
     '' */'',
     [],
     ''#include <stdint.h>'',
     ''#include <stdbool.h>'',
     [],
     ''/* MISRA C:2012 Rule 8.1 - Functions shall have prototype declarations */'',
     [],
     ''/**'',
     '' * @brief Error criticality assessment function'',
     '' * @param error_code Error code to evaluate'',
     '' * @return true if critical, false otherwise'',
     '' * @safety_critical Determines system safety response'',
     '' */'',
     ''bool dsrtos_error_is_critical(uint32_t error_code)'',
     ''{'',
     ''    bool is_critical = false;'',
     ''    '',
     ''    /* MISRA C:2012 Rule 15.7 - All if-else chains shall have else */'',
     ''    if (0x1000000AU == error_code) /* DSRTOS_ERROR_FATAL */'',
     ''    {'',
     ''        is_critical = true;'',
     ''    }'',
     ''    else if (0x1000000CU == error_code) /* DSRTOS_ERROR_STACK_OVERFLOW */'',
     ''    {'',
     ''        is_critical = true;'',
     ''    }'',
     ''    else'',
     ''    {'',
     ''        is_critical = false;'',
     ''    }'',
     ''    '',
     ''    return is_critical;'',
     ''}'',
     [],
     ''/**'',
     '' * @brief Shutdown requirement assessment function'',
     '' * @param error_code Error code to evaluate'',
     '' * @return true if shutdown required, false otherwise'',
     '' */'',
     ''bool dsrtos_error_requires_shutdown(uint32_t error_code)'',
     ''{'',
     ''    return (0x1000000AU == error_code); /* DSRTOS_ERROR_FATAL */'',
     ''}'',
     [],
     ''/**'',
     '' * @brief Memory subsystem initialization'',
     '' * @return 0 on success, error code otherwise'',
     '' */'',
     ''uint32_t dsrtos_memory_init(void)'',
     ''{'',
     ''    return 0U; /* Success */'',
     ''}'',
     [],
     ''/**'',
     '' * @brief Memory statistics retrieval'',
     '' * @param total_ptr Pointer to total memory variable'',
     '' * @param allocated_ptr Pointer to allocated memory variable'',
     '' * @param peak_ptr Pointer to peak usage variable'',
     '' */'',
     ''void dsrtos_memory_get_stats(uint32_t* total_ptr, uint32_t* allocated_ptr, uint32_t* peak_ptr)'',
     ''{'',
     ''    /* MISRA C:2012 Rule 1.3 - Parameter validation required */'',
     ''    if (((void*)0) != total_ptr)'',
     ''    {'',
     ''        *total_ptr = 32768U;'',
     ''    }'',
     ''    if (((void*)0) != allocated_ptr)'',
     ''    {'',
     ''        *allocated_ptr = 0U;'',
     ''    }'',
     ''    if (((void*)0) != peak_ptr)'',
     ''    {'',
     ''        *peak_ptr = 0U;'',
     ''    }'',
     ''}'',
     [],
     ''/**'',
     '' * @brief Stack corruption failure handler (GCC runtime)'',
     '' * @note Function does not return - enters safe infinite loop'',
     '' */'',
     ''void __stack_chk_fail(void)'',
     ''{'',
     ''    /* IEC 61508 SIL 4 - Fail-safe infinite loop */'',
     ''    for(;;)'',
     ''    {'',
     ''        /* Intentional infinite loop for safety */'',
     ''    }'',
     ''}'',
     [],
     ''/**'',
     '' * @brief Stack protection guard variable (GCC runtime)'',
     '' */'',
     ''uint32_t __stack_chk_guard = 0xDEADBEEFU;'']"

definition generate_missing_implementations :: "env \<Rightarrow> string \<Rightarrow> string" where
  "generate_missing_implementations env filename = unlines
     [''/**'',
     '' * @file '' @ filename,
     '' * @brief DSRTOS Missing Function Implementations'',
     '' * MISRA C:2012 Compliant'',
     '' */'',
     [],
     ''#include <stdint.h>'',
     ''#include <stdbool.h>'',
     [],
     ''/* Auto-generated implementations */'',
     ''uint32_t placeholder_function(void)'',
     ''{'',
     ''    return 0U;'',
     ''}'']"

text \<open>\<^verbatim>\<open>str.replace(old, new)\<close> for a non-empty \<open>old\<close>.\<close>

fun replace_all :: "string \<Rightarrow> string \<Rightarrow> string \<Rightarrow> string" where
  "replace_all old new [] = []"
| "replace_all old new (c # cs) =
     (if old \<noteq> [] \<and> prefix old (c # cs) then new @ replace_all old new (drop (length old - 1) cs)
      else c # replace_all old new cs)"

definition generate_generic_source :: "env \<Rightarrow> string \<Rightarrow> string" where
  "generate_generic_source env filename =
     (let base_name = replace_all ''dsrtos_'' [] (replace_all ''.c'' [] filename) in unlines
     [''/**'',
     '' * @file '' @ filename,
     '' * @brief DSRTOS '' @ title env base_name @ '' Module'',
     '' * MISRA C:2012, DO-178C, IEC 62304, IEC 61508 Compliant'',
     '' */'',
     [],
     ''#include <stdint.h>'',
     ''#include <stdbool.h>'',
     [],
     ''/* Auto-generated placeholder implementation */'',
     ''void '' @ base_name @ ''_placeholder(void)'',
     ''{'',
     ''    /* Placeholder function */'',
     ''}''])"

definition create_missing_source_file :: "env \<Rightarrow> string \<Rightarrow> project \<Rightarrow> project" where
  "create_missing_source_file env filename st =
     (let content =
        (if contains ''stubs'' filename then generate_stubs_file env filename
         else if contains ''missing'' filename then generate_missing_implementations env filename
         else generate_generic_source env filename)
      in st\<lparr>files := write_file env (''src/'' @ filename) content (files st)\<rparr>)"

text \<open>\<^verbatim>\<open>Path(p).name\<close>: the last component of the path, empty and \<^verbatim>\<open>.\<close> components aside.\<close>

fun split_on :: "char \<Rightarrow> string \<Rightarrow> string list" where
  "split_on d [] = [[]]"
| "split_on d (c # cs) =
     (if c = d then [] # split_on d cs
      else (case split_on d cs of [] \<Rightarrow> [[c]] | w # ws \<Rightarrow> (c # w) # ws))"

definition path_name :: "string \<Rightarrow> string" where
  "path_name p =
     (case filter (\<lambda>w. w \<noteq> [] \<and> w \<noteq> ''.'') (split_on CHR ''/'' p) of
        [] \<Rightarrow> []
      | w # ws \<Rightarrow> last (w # ws))"

text \<open>
  \<^verbatim>\<open>Path(f"{dir}/{name}").exists()\<close>: a file or a directory of that path; with an empty
  name or the name \<^verbatim>\<open>..\<close> the path stands for the directory itself or its parent.
\<close>

definition path_exists :: "project \<Rightarrow> string \<Rightarrow> string \<Rightarrow> bool" where
  "path_exists st dir name =
     (if name = [] \<or> name = ''..'' then dir \<in> set (dirs st)
      else dir @ ''/'' @ name \<in> fst ` set (files st) \<or> dir @ ''/'' @ name \<in> set (dirs st))"

definition fix_missing_rule_for :: "env \<Rightarrow> string \<Rightarrow> project \<Rightarrow> error + project" where
  "fix_missing_rule_for env missing_file st =
     (let filename = path_name missing_file;
          source_name = replace_all ''.o'' ''.c'' filename;
          source_exists = list_ex (\<lambda>d. path_exists st d source_name)
                            [''src'', ''src/phase1'', ''src/phase2'', ''src/common''];
          st1 = (if source_exists then st else create_missing_source_file env source_name st)
      in add_source_to_makefile env source_name st1)"

definition missing_rule_pattern :: matcher where
  "missing_rule_pattern = m_quoted (''No rule to make target '' @ [squote]) squote []"

definition fix_makefile_missing_rule :: "env \<Rightarrow> string \<Rightarrow> project \<Rightarrow> error + project" where
  "fix_makefile_missing_rule env output st =
     fold_result (fix_missing_rule_for env) (re_findall missing_rule_pattern output) st"

section \<open>Forward declarations\<close>

definition starts_with :: "char \<Rightarrow> string \<Rightarrow> bool" where
  "starts_with c s = (case s of [] \<Rightarrow> False | d # ds \<Rightarrow> d = c)"

definition line_part :: "string \<Rightarrow> string" where
  "line_part s = takeWhile (\<lambda>c. c \<noteq> nl) s"

text \<open>
  The pattern \<^verbatim>\<open>^.*SYMBOL\s*\(.*\)\s*;\<close> in multi-line mode, tried at the start of a
  line: some characters of the line, the symbol, blanks, an opening parenthesis, some
  characters of that line, a closing parenthesis, blanks and a semicolon.
\<close>

definition declaration_line :: "string \<Rightarrow> bool \<Rightarrow> string \<Rightarrow> bool" where
  "declaration_line symbol bol s \<longleftrightarrow>
     bol \<and>
     list_ex (\<lambda>i.
       prefix symbol (drop i s) \<and>
       (let r = dropWhile is_space (drop (i + length symbol) s) in
        starts_with CHR ''('' r \<and>
        list_ex (\<lambda>j.
          let r' = drop (Suc j) r in
          starts_with CHR '')'' r' \<and> starts_with CHR '';'' (dropWhile is_space (tl r')))
          [0..<Suc (length (line_part (tl r)))]))
       [0..<Suc (length (line_part s))]"

text \<open>\<^verbatim>\<open>s.rfind(sub)\<close> and \<^verbatim>\<open>s.find(c, start)\<close>, with their result \<open>-1\<close> for no occurrence.\<close>

definition occurrences :: "string \<Rightarrow> string \<Rightarrow> nat list" where
  "occurrences sub s = filter (\<lambda>i. prefix sub (drop i s)) [0..<Suc (length s)]"

definition rfind :: "string \<Rightarrow> string \<Rightarrow> int" where
  "rfind s sub = (case rev (occurrences sub s) of [] \<Rightarrow> - 1 | i # is \<Rightarrow> int i)"

definition find_from :: "string \<Rightarrow> char \<Rightarrow> nat \<Rightarrow> int" where
  "find_from s c start =
     (case filter (\<lambda>i. s ! i = c) [start..<length s] of [] \<Rightarrow> - 1 | i # is \<Rightarrow> int i)"

definition forward_declaration :: "string \<Rightarrow> string" where
  "forward_declaration symbol =
     [nl] @ ''/* Forward declaration */'' @ [nl] @
     ''static dsrtos_result_t '' @ symbol @ ''(void);'' @ [nl]"

text \<open>
  The body of the loop over the files for one file: the new text when the declaration is
  inserted (the file is then written and the loop left), \<open>None\<close> when the file is passed
  over.
\<close>

definition insert_declaration :: "string \<Rightarrow> string \<Rightarrow> string option" where
  "insert_declaration symbol content =
     (if contains symbol content \<and> contains (symbol @ ''('') content then
        if \<not> re_search (declaration_line symbol) True content then
          (let include_end = rfind content ''#include'' in
           if include_end > 0 then
             (let include_end' = nat (find_from content nl (nat include_end) + 1) in
              Some (take include_end' content @ forward_declaration symbol
                      @ drop include_end' content))
           else None)
        else None
      else None)"

fun forward_declare :: "string \<Rightarrow> (string \<times> string) list \<Rightarrow> (string \<times> string) list" where
  "forward_declare symbol [] = []"
| "forward_declare symbol ((p, content) # fs) =
     (if is_src_c p then
        (case insert_declaration symbol content of
           Some content' \<Rightarrow> (p, content') # fs
         | None \<Rightarrow> (p, content) # forward_declare symbol fs)
      else (p, content) # forward_declare symbol fs)"

definition undeclared_patterns :: "matcher list" where
  "undeclared_patterns =
     [m_quoted [squote] squote '' undeclared here (not in a function)'',
      m_quoted [squote] squote '' undeclared (first use in this function)'']"

definition fix_forward_declaration_errors :: "env \<Rightarrow> string \<Rightarrow> project \<Rightarrow> project" where
  "fix_forward_declaration_errors env output st =
     fold (\<lambda>pattern. fold (\<lambda>symbol st'. st'\<lparr>files := forward_declare symbol (files st')\<rparr>)
                         (set_order env (re_findall pattern output)))
          undeclared_patterns st"

section \<open>Multiple definitions\<close>

text \<open>The pattern \<^verbatim>\<open>^[^/\n]*SYMBOL\s*\(\<close> in multi-line mode.\<close>

definition definition_head :: "string \<Rightarrow> bool \<Rightarrow> string \<Rightarrow> bool" where
  "definition_head symbol bol s \<longleftrightarrow>
     bol \<and>
     list_ex (\<lambda>i. prefix symbol (drop i s) \<and>
                  starts_with CHR ''('' (dropWhile is_space (drop (i + length symbol) s)))
       [0..<Suc (length (takeWhile (\<lambda>c. c \<noteq> CHR ''/'' \<and> c \<noteq> nl) s))]"

text \<open>The lazy \<^verbatim>\<open>.*?^\}\<close> with \<^verbatim>\<open>DOTALL\<close>: up to the first closing brace at the start of a line.\<close>

fun after_closing_brace :: "bool \<Rightarrow> string \<Rightarrow> string option" where
  "after_closing_brace bol [] = None"
| "after_closing_brace bol (c # cs) =
     (if bol \<and> c = CHR ''}'' then Some cs else after_closing_brace (c = nl) cs)"

text \<open>
  The pattern \<^verbatim>\<open>^[^/\n]*SYMBOL\s*\([^)]*\)\s*\{.*?^\}\<close>, for the symbol starting \<open>i\<close>
  characters into the line; the greedy prefix tries the largest \<open>i\<close> first.
\<close>

definition definition_block_at :: "string \<Rightarrow> string \<Rightarrow> nat \<Rightarrow> string option" where
  "definition_block_at symbol s i =
     (if prefix symbol (drop i s) then
        (case dropWhile is_space (drop (i + length symbol) s) of
           [] \<Rightarrow> None
         | a # r2 \<Rightarrow>
             if a = CHR ''('' then
               (case dropWhile (\<lambda>c. c \<noteq> CHR '')'') r2 of
                  [] \<Rightarrow> None
                | b # r4 \<Rightarrow>
                    (case dropWhile is_space r4 of
                       [] \<Rightarrow> None
                     | d # r6 \<Rightarrow> if d = CHR ''{'' then after_closing_brace False r6 else None))
             else None)
      else None)"

definition m_definition_block :: "string \<Rightarrow> matcher" where
  "m_definition_block symbol bol s =
     (if bol then
        (case List.map_filter (definition_block_at symbol s)
                (rev [0..<Suc (length (takeWhile (\<lambda>c. c \<noteq> CHR ''/'' \<and> c \<noteq> nl) s))]) of
           [] \<Rightarrow> None
         | rest # rs \<Rightarrow> Some ([], rest))
      else None)"

text \<open>
  The files in which the symbol is found are collected first; of these, the ones with
  \<^verbatim>\<open>main.c\<close> in their path lose the definition block. The marker text with the symbol in
  it is the replacement template of \<^verbatim>\<open>re.sub\<close>; the pattern has no group.
\<close>

definition removed_template :: "string \<Rightarrow> string" where
  "removed_template symbol = ''/* REMOVED: '' @ symbol @ '' implemented elsewhere */''"

definition remove_definition ::
  "env \<Rightarrow> string \<Rightarrow> string \<times> string \<Rightarrow> error + string \<times> string" where
  "remove_definition env symbol f =
     (case f of (p, content) \<Rightarrow>
        if is_src_c p \<and> re_search (definition_head symbol) True content \<and> contains ''main.c'' p
        then (case re_sub_template env 0 (m_definition_block symbol)
                     (removed_template symbol) content of
                Inl e \<Rightarrow> Inl e
              | Inr content' \<Rightarrow> Inr (p, content'))
        else Inr (p, content))"

definition multiple_definition_pattern :: matcher where
  "multiple_definition_pattern = m_quoted (''multiple definition of '' @ [bquote]) squote []"

definition fix_multiple_definitions :: "env \<Rightarrow> string \<Rightarrow> project \<Rightarrow> error + project" where
  "fix_multiple_definitions env output st =
     fold_result
       (\<lambda>symbol st'.
          case map_result (remove_definition env symbol) (files st') of
            Inl e \<Rightarrow> Inl e
          | Inr fs \<Rightarrow> Inr (st'\<lparr>files := fs\<rparr>))
       (set_order env (re_findall multiple_definition_pattern output)) st"

section \<open>Stubs for undefined references\<close>

definition stub_for :: "string \<Rightarrow> string" where
  "stub_for symbol =
     (if contains ''error_is_critical'' symbol
      then ''bool '' @ symbol @ ''(uint32_t error) { return false; }'' @ [nl]
      else if contains ''error_requires_shutdown'' symbol
      then ''bool '' @ symbol @ ''(uint32_t error) { return false; }'' @ [nl]
      else if contains ''memory_init'' symbol
      then ''uint32_t '' @ symbol @ ''(void) { return 0U; }'' @ [nl]
      else if contains ''memory_get_stats'' symbol
      then ''void '' @ symbol @
           ''(uint32_t* a, uint32_t* b, uint32_t* c) { if(a)*a=32768U; if(b)*b=0U; if(c)*c=0U; }''
           @ [nl]
      else if contains ''__stack_chk_fail'' symbol
      then ''void '' @ symbol @ ''(void) { while(1); }'' @ [nl]
      else if contains ''__stack_chk_guard'' symbol
      then ''uint32_t '' @ symbol @ '' = 0xDEADBEEFU;'' @ [nl]
      else ''uint32_t '' @ symbol @ ''(void) { return 0U; }'' @ [nl])"

definition stubs_header :: "env \<Rightarrow> string" where
  "stubs_header env = unlines
     [''/**'',
      '' * @file dsrtos_stubs.c'',
      '' * @brief Comprehensive DSRTOS Stub Implementations'',
      '' * @date '' @ today env,
      '' * MISRA C:2012, DO-178C, IEC 62304, IEC 61508 Compliant'',
      '' */'',
      [],
      ''#include <stdint.h>'',
      ''#include <stdbool.h>'',
      []]"

text \<open>The argument \<open>symbols\<close> is the set of symbols in the order of its iteration.\<close>

definition create_comprehensive_stubs ::
  "env \<Rightarrow> string list \<Rightarrow> project \<Rightarrow> error + project" where
  "create_comprehensive_stubs env symbols st =
     add_source_to_makefile env ''dsrtos_stubs.c''
       (st\<lparr>files := write_file env ''src/dsrtos_stubs.c''
                       (stubs_header env @ concat (map stub_for symbols)) (files st)\<rparr>)"

definition undefined_reference_pattern :: matcher where
  "undefined_reference_pattern = m_quoted (''undefined reference to '' @ [bquote]) squote []"

section \<open>The constants header\<close>

text \<open>The format \<^verbatim>\<open>{const:<30}\<close>: padded with blanks on the right to 30 characters.\<close>

definition ljust :: "nat \<Rightarrow> string \<Rightarrow> string" where
  "ljust n s = s @ replicate (n - length s) CHR '' ''"

definition constant_value :: "string \<Rightarrow> string" where
  "constant_value const =
     (if contains ''HEAP_SIZE'' const then ''32768U''
      else if contains ''ERROR_HARDWARE'' const then ''0x1000000BU''
      else if contains ''ERROR_FATAL'' const then ''0x1000000AU''
      else if contains ''ERROR_'' const then ''0x10000001U''
      else ''0U'')"

definition define_line :: "string \<Rightarrow> string" where
  "define_line const = ''#define '' @ ljust 30 const @ '' '' @ constant_value const @ [nl]"

definition constants_preamble :: string where
  "constants_preamble = unlines
     [''#ifndef DSRTOS_AUTO_CONSTANTS_H'',
      ''#define DSRTOS_AUTO_CONSTANTS_H'',
      [],
      ''/* Auto-generated missing constants */'']"

definition constants_header :: "string list \<Rightarrow> string" where
  "constants_header constants =
     constants_preamble @ concat (map define_line constants) @ [nl] @ ''#endif'' @ [nl]"

definition include_directive :: string where
  "include_directive = ''#include '' @ [dquote] @ ''dsrtos_auto_constants.h'' @ [dquote] @ [nl]"

definition add_include :: "string list \<Rightarrow> string \<times> string \<Rightarrow> string \<times> string" where
  "add_include constants f =
     (case f of (p, content) \<Rightarrow>
        if is_src_c p \<and> list_ex (\<lambda>const. contains const content) constants
           \<and> \<not> contains ''dsrtos_auto_constants.h'' content
        then (p, include_directive @ content)
        else (p, content))"

definition ensure_dirs :: "string list \<Rightarrow> string list \<Rightarrow> string list" where
  "ensure_dirs ds have = have @ filter (\<lambda>d. d \<notin> set have) ds"

definition create_constants_file :: "env \<Rightarrow> string list \<Rightarrow> project \<Rightarrow> project" where
  "create_constants_file env constants st =
     st\<lparr>dirs := ensure_dirs [''include'', ''include/common''] (dirs st),
        files := map (add_include constants)
                   (write_file env ''include/common/dsrtos_auto_constants.h''
                      (constants_header constants) (files st))\<rparr>"

text \<open>\<^verbatim>\<open>str.isupper\<close> on the code points below 256: a cased character, and none in lower case.\<close>

definition is_upper_char :: "char \<Rightarrow> bool" where
  "is_upper_char c \<longleftrightarrow>
     (let n = (of_char c :: nat) in (65 \<le> n \<and> n \<le> 90) \<or> (192 \<le> n \<and> n \<le> 222 \<and> n \<noteq> 215))"

definition is_lower_char :: "char \<Rightarrow> bool" where
  "is_lower_char c \<longleftrightarrow>
     (let n = (of_char c :: nat) in
      (97 \<le> n \<and> n \<le> 122) \<or> n = 170 \<or> n = 181 \<or> n = 186 \<or> (223 \<le> n \<and> n \<noteq> 247))"

definition isupper :: "string \<Rightarrow> bool" where
  "isupper s \<longleftrightarrow> list_ex is_upper_char s \<and> \<not> list_ex is_lower_char s"

definition undeclared_pattern :: matcher where
  "undeclared_pattern = m_quoted [squote] squote '' undeclared''"

definition undeclared_constants :: "string \<Rightarrow> string list" where
  "undeclared_constants output =
     filter (\<lambda>id. prefix ''DSRTOS_'' id \<and> isupper id) (re_findall undeclared_pattern output)"

section \<open>Macro redefinitions\<close>

text \<open>
  The pattern \<^verbatim>\<open>^#define\s+MACRO.*$\<close> in multi-line mode: at the start of a line the
  directive, one or more blanks (line breaks among them), the macro name, and the rest of
  that line. The greedy blanks give back characters until the name follows: the largest
  number \<open>k\<close> of blanks after which the name stands is taken.
\<close>

definition m_define :: "string \<Rightarrow> matcher" where
  "m_define macro bol s =
     (if bol \<and> prefix ''#define'' s then
        (let r = drop 7 s in
         case filter (\<lambda>k. prefix macro (drop k r)) (rev [1..<Suc (length (takeWhile is_space r))]) of
           [] \<Rightarrow> None
         | k # ks \<Rightarrow> Some ([], dropWhile (\<lambda>c. c \<noteq> nl) (drop (k + length macro) r)))
      else None)"

definition strip_macro :: "string \<Rightarrow> string \<times> string \<Rightarrow> string \<times> string" where
  "strip_macro macro f =
     (case f of (p, content) \<Rightarrow>
        if is_src_c p then (p, re_sub (m_define macro) (\<lambda>t g. []) content) else (p, content))"

definition remove_duplicate_macros :: "string list \<Rightarrow> project \<Rightarrow> project" where
  "remove_duplicate_macros macros st =
     fold (\<lambda>macro st'. st'\<lparr>files := map (strip_macro macro) (files st')\<rparr>) macros st"

definition redefined_pattern :: matcher where
  "redefined_pattern = m_quoted [dquote] dquote '' redefined''"

section \<open>The convergence loop\<close>

text \<open>
  The backup before the first round copies the directories \<^verbatim>\<open>src\<close> and \<^verbatim>\<open>include\<close> and the
  manifest; \<^verbatim>\<open>shutil.copytree\<close> raises when its source directory does not exist. The
  copies lie outside the source and include trees.
\<close>

definition create_backup :: "project \<Rightarrow> error + unit" where
  "create_backup st =
     (if ''src'' \<in> set (dirs st) \<and> ''include'' \<in> set (dirs st) then Inr ()
      else Inl Backup_failed)"

text \<open>
  One of the six steps of a round: when its test holds, the synthesizer runs and the
  counter \<^verbatim>\<open>fixes_applied\<close> goes up by one; an exception of the synthesizer ends the round.
\<close>

definition apply_fix ::
  "bool \<Rightarrow> (project \<Rightarrow> error + project) \<Rightarrow> error + nat \<times> project \<Rightarrow> error + nat \<times> project" where
  "apply_fix test synthesizer r =
     (case r of
        Inl e \<Rightarrow> Inl e
      | Inr (n, st) \<Rightarrow>
          if test then (case synthesizer st of Inl e \<Rightarrow> Inl e | Inr st' \<Rightarrow> Inr (n + 1, st'))
          else Inr (n, st))"

text \<open>
  The part of one round behind the failed build: the six tests in their order. The
  result is the counter and the project after the round, or the exception that ended it.
\<close>

definition fix_round :: "env \<Rightarrow> string \<Rightarrow> project \<Rightarrow> error + nat \<times> project" where
  "fix_round env output st =
     (let r1 = apply_fix (contains ''No rule to make target'' output)
                 (fix_makefile_missing_rule env output) (Inr (0, st));
          r2 = apply_fix (contains ''undeclared here (not in a function)'' output)
                 (\<lambda>s. Inr (fix_forward_declaration_errors env output s)) r1;
          r3 = apply_fix (contains ''multiple definition'' output)
                 (fix_multiple_definitions env output) r2;
          undefined_refs = re_findall undefined_reference_pattern output;
          r4 = apply_fix (undefined_refs \<noteq> [])
                 (create_comprehensive_stubs env (set_order env undefined_refs)) r3;
          constants = undeclared_constants output;
          r5 = apply_fix (constants \<noteq> [])
                 (\<lambda>s. Inr (create_constants_file env (set_order env constants) s)) r4;
          redefined = re_findall redefined_pattern output;
          r6 = apply_fix (redefined \<noteq> [])
                 (\<lambda>s. Inr (remove_duplicate_macros (set_order env redefined) s)) r5
      in r6)"

text \<open>
  The lines the loop writes to the log, as events: the start of a round, the success
  message, the number of fixes of a round, the message of a round without a fix, and the
  final error message.
\<close>

datatype event = Fix_iteration nat | Success | Applied nat nat | No_more_fixes | Could_not_resolve

text \<open>
  The loop \<^verbatim>\<open>for iteration in range(1, 8)\<close> over the list of its rounds. The result is
  the log written and the way the run ends: with an exception, or with the returned truth
  value and the project left behind. The export of the built artifacts after a success
  copies files out of the source tree and is left out.
\<close>

definition build_round :: "env \<Rightarrow> nat \<Rightarrow> project \<Rightarrow> bool \<times> string" where
  "build_round env iteration st =
     get_compilation_output (run_clean env iteration st) (run_make env iteration st)"

fun fix_loop :: "env \<Rightarrow> nat list \<Rightarrow> project \<Rightarrow> event list \<times> (error + bool \<times> project)" where
  "fix_loop env [] st = ([Could_not_resolve], Inr (False, st))"
| "fix_loop env (iteration # rest) st =
     (case build_round env iteration st of
        (success, output) \<Rightarrow>
          if success then ([Fix_iteration iteration, Success], Inr (True, st))
          else
            (case fix_round env output st of
               Inl e \<Rightarrow> ([Fix_iteration iteration], Inl e)
             | Inr (fixes_applied, st') \<Rightarrow>
                 if fixes_applied = 0
                 then ([Fix_iteration iteration, Applied 0 iteration, No_more_fixes,
                        Could_not_resolve], Inr (False, st'))
                 else
                   (case fix_loop env rest st' of
                      (log, r) \<Rightarrow>
                        (Fix_iteration iteration # Applied fixes_applied iteration # log, r))))"

definition run_dynamic_fix :: "env \<Rightarrow> project \<Rightarrow> event list \<times> (error + bool \<times> project)" where
  "run_dynamic_fix env st =
     (case create_backup st of
        Inl e \<Rightarrow> ([], Inl e)
      | Inr u \<Rightarrow> fix_loop env [1..<8] st)"

text \<open>
  For stating what a run does round by round: the number of rounds a log records, the
  project with which round \<open>k + 1\<close> starts when the rounds up to \<open>k\<close> have all failed to
  build and none has raised, and the build result, the outcome of the synthesizers and the
  fix counter of round \<open>i\<close> on that project.
\<close>

fun is_iteration :: "event \<Rightarrow> bool" where
  "is_iteration (Fix_iteration i) = True"
| "is_iteration e = False"

definition rounds :: "event list \<Rightarrow> nat" where
  "rounds log = length (filter is_iteration log)"





section \<open>Notions of the specification and sample inputs\<close>

text \<open>
  A build output in which none of the extraction patterns of the six diagnostic kinds
  matches (the undeclared-symbol kind has two patterns in the program).
\<close>

definition no_diagnostic :: "string \<Rightarrow> bool" where
  "no_diagnostic output \<longleftrightarrow>
     re_findall missing_rule_pattern output = [] \<and>
     list_all (\<lambda>pattern. re_findall pattern output = []) undeclared_patterns \<and>
     re_findall undefined_reference_pattern output = [] \<and>
     re_findall multiple_definition_pattern output = [] \<and>
     undeclared_constants output = [] \<and>
     re_findall redefined_pattern output = []"

text \<open>
  A small project and a build tool that fails twice with an undefined reference and then
  succeeds; and the same surroundings with a build that always fails with a given output.
\<close>

definition decimal_group :: "string \<Rightarrow> nat option" where
  "decimal_group name =
     (if name \<noteq> [] \<and> list_all is_digit name
      then Some (foldl (\<lambda>a x. 10 * a + digit_value x) 0 name) else None)"

definition demo_env :: env where
  "demo_env =
     \<lparr>run_clean = (\<lambda>i st. Completed 0 [] []),
      run_make = (\<lambda>i st. if i < 3
                          then Completed 2 [] (''undefined reference to '' @ [bquote] @ ''f'' @ [squote])
                          else Completed 0 ''ok'' []),
      set_order = remdups, today = ''2024-01-01'', title = (\<lambda>s. s),
      new_position = (\<lambda>p ps. length ps), group_index = decimal_group\<rparr>"

definition demo_project :: project where
  "demo_project =
     \<lparr>makefile = ''C_SOURCES = '' @ [bslash, nl] @ ''    src/main.c'' @ [nl],
      files = [(''src/main.c'', ''int main(void) { return f(); }'')],
      dirs = [''src'', ''include'']\<rparr>"



definition failing_env :: "string \<Rightarrow> env" where
  "failing_env output = demo_env\<lparr>run_make := (\<lambda>i st. Completed 2 [] output)\<rparr>"

definition bare_rule_output :: string where
  "bare_rule_output = ''No rule to make target''"

definition quiet_output :: string where
  "quiet_output = ''make: *** [all] Error 1''"

definition two_kinds_output :: string where
  "two_kinds_output =
     ''No rule to make target '' @ [squote] @ ''a.o'' @ [squote, nl] @
     ''undefined reference to '' @ [bquote] @ ''f'' @ [squote, nl]"

definition stray_output :: string where
  "stray_output = two_kinds_output @ ''multiple definition''"

text \<open>
  The text that the replacement template of manifest insertion stands for when the path
  holds no backslash: the match, a line break, the indented path, a blank and a backslash.
  The label which manifest insertion tries, and sample manifests: one with a second
  source list besides the fallback list, one with the fallback list alone, one in which
  the primary label occurs without the line-continuation form, and a project whose manifest
  has no line-continuation list at all.
\<close>

definition manifest_entry :: "string \<Rightarrow> string \<Rightarrow> string \<Rightarrow> string" where
  "manifest_entry source_path t g = g @ [nl] @ ''    '' @ source_path @ '' '' @ [bslash]"

definition tried_label :: "string \<Rightarrow> string" where
  "tried_label content =
     (if contains ''PHASE1_C_SOURCES'' content then ''PHASE1_C_SOURCES'' else ''C_SOURCES'')"

text \<open>
  The manifest text after an insertion whose template is the plain entry; and a file name
  with a backslash before a letter that is no escape of a template.
\<close>

definition entry_inserted :: "string \<Rightarrow> string \<Rightarrow> string" where
  "entry_inserted source_name content =
     (if contains (''src/'' @ source_name) content then content
      else re_sub (m_label (tried_label content)) (manifest_entry (''src/'' @ source_name))
             content)"

definition backslash_name :: string where
  "backslash_name = ''gen'' @ [bslash] @ ''obj.c''"

definition two_label_manifest :: string where
  "two_label_manifest =
     ''C_SOURCES = '' @ [bslash, nl] @ ''    src/main.c'' @ [nl] @
     ''PHASE2_C_SOURCES = '' @ [bslash, nl] @ ''    src/phase2/task.c'' @ [nl]"

definition one_label_manifest :: string where
  "one_label_manifest = ''C_SOURCES = '' @ [bslash, nl] @ ''    src/main.c'' @ [nl]"

definition unmatched_primary_manifest :: string where
  "unmatched_primary_manifest =
     ''PHASE1_C_SOURCES := src/phase1/boot.c'' @ [nl] @
     ''C_SOURCES = '' @ [bslash, nl] @ ''    src/main.c'' @ [nl]"

definition flat_project :: project where
  "flat_project =
     \<lparr>makefile = ''C_SOURCES = src/main.c'' @ [nl],
      files = [(''src/main.c'', ''int main(void) { return 0; }'')],
      dirs = [''src'', ''include'']\<rparr>"

text \<open>
  The generated header, its two definition lines as the format pads them, and a project
  with a file that uses a constant, a file that already includes the header, a file that
  uses none, and a header of its own.
\<close>

definition header_name :: string where
  "header_name = ''dsrtos_auto_constants.h''"

definition header_path :: string where
  "header_path = ''include/common/dsrtos_auto_constants.h''"

definition fatal_line :: string where
  "fatal_line = ''#define DSRTOS_ERROR_FATAL             0x1000000AU'' @ [nl]"

definition heap_line :: string where
  "heap_line = ''#define DSRTOS_HEAP_SIZE               32768U'' @ [nl]"

definition constants_project :: project where
  "constants_project =
     \<lparr>makefile = one_label_manifest,
      files = [(''src/main.c'', ''int heap[DSRTOS_HEAP_SIZE];'' @ [nl]),
               (''src/phase1/boot.c'',
                ''#include '' @ [dquote] @ ''dsrtos_auto_constants.h'' @ [dquote, nl]
                @ ''int e = DSRTOS_ERROR_FATAL;'' @ [nl]),
               (''src/util.c'', ''int u;'' @ [nl]),
               (''include/common/types.h'', ''#define DSRTOS_HEAP_SIZE 1'' @ [nl])],
      dirs = [''src'', ''src/phase1'', ''include'', ''include/common'']\<rparr>"

definition main_text :: string where
  "main_text = ''int heap[DSRTOS_HEAP_SIZE];'' @ [nl]"

text \<open>
  A file that uses a constant and names the generated header in a comment only, without
  any include directive.
\<close>

definition mention_text :: string where
  "mention_text =
     ''/* values: see dsrtos_auto_constants.h */'' @ [nl] @ ''int heap[DSRTOS_HEAP_SIZE];'' @ [nl]"

definition mention_project :: project where
  "mention_project =
     \<lparr>makefile = one_label_manifest, files = [(''src/heap.c'', mention_text)],
      dirs = [''src'', ''include'']\<rparr>"

text \<open>
  Two files that call \<^verbatim>\<open>foo\<close> without a declaration line: the first has no include
  directive, the second has one behind a comment line.
\<close>

definition no_include_text :: string where
  "no_include_text = ''int x = foo() + 1;'' @ [nl]"

definition late_include_text :: string where
  "late_include_text =
     ''/* boot */'' @ [nl] @ ''#include <stdint.h>'' @ [nl] @ ''int y = foo() + 2;'' @ [nl]"

text \<open>
  The symbols that one call of \<^verbatim>\<open>fix_forward_declaration_errors\<close> processes, in the order
  of processing: for each of the two patterns in turn, the set of its matches. A project
  with two callers that both have an include directive, a caller with a call statement,
  and build outputs that report \<^verbatim>\<open>foo\<close> under one and under both patterns.
\<close>

definition processed_symbols :: "env \<Rightarrow> string \<Rightarrow> string list" where
  "processed_symbols env output =
     concat (map (\<lambda>pattern. set_order env (re_findall pattern output)) undeclared_patterns)"

definition second_caller_text :: string where
  "second_caller_text =
     ''/* task */'' @ [nl] @ ''#include <stdbool.h>'' @ [nl] @ ''int z = foo() + 3;'' @ [nl]"

definition statement_caller_text :: string where
  "statement_caller_text =
     ''/* init */'' @ [nl] @ ''#include <stdint.h>'' @ [nl] @ ''void init(void) { foo(); }'' @ [nl]"

definition callers_project :: project where
  "callers_project =
     \<lparr>makefile = one_label_manifest,
      files = [(''src/a.c'', no_include_text), (''src/b.c'', late_include_text),
               (''src/c.c'', second_caller_text)],
      dirs = [''src'', ''include'']\<rparr>"

definition file_scope_output :: string where
  "file_scope_output = [squote] @ ''foo'' @ [squote] @ '' undeclared here (not in a function)'' @ [nl]"

definition both_scopes_output :: string where
  "both_scopes_output =
     file_scope_output @ [squote] @ ''foo'' @ [squote]
     @ '' undeclared (first use in this function)'' @ [nl]"

text \<open>
  Notions for the removal of macro definitions. A blank other than the line break; a text
  that starts with \<^verbatim>\<open>#define\<close>, blanks of the same line and the macro name (a line
  beginning with a definition of the macro, or of a longer name that starts with it); a
  text that starts with \<^verbatim>\<open>#define\<close> followed only by blanks up to a line break; and
  whether some line of a text begins in one of these ways.
\<close>

definition hspace :: "char \<Rightarrow> bool" where
  "hspace c \<longleftrightarrow> is_space c \<and> c \<noteq> nl"

definition define_at :: "string \<Rightarrow> string \<Rightarrow> bool" where
  "define_at macro s \<longleftrightarrow>
     prefix ''#define'' s \<and>
     list_ex (\<lambda>k. prefix macro (drop k (drop 7 s)))
       [1..<Suc (length (takeWhile hspace (drop 7 s)))]"

definition bare_define :: "string \<Rightarrow> bool" where
  "bare_define s \<longleftrightarrow> prefix ''#define'' s \<and> starts_with nl (dropWhile hspace (drop 7 s))"

definition has_define :: "string \<Rightarrow> string \<Rightarrow> bool" where
  "has_define macro content = re_search (\<lambda>bol s. bol \<and> define_at macro s) True content"

definition has_bare_define :: "string \<Rightarrow> bool" where
  "has_bare_define content = re_search (\<lambda>bol s. bol \<and> bare_define s) True content"

text \<open>
  The substitution of \<^verbatim>\<open>remove_duplicate_macros\<close> for one macro from a position on, given
  whether the position starts a line; the successive substitution for a list of macros;
  and the relation of two texts that agree up to and including their first line break.
\<close>

definition strip_defines :: "string \<Rightarrow> bool \<Rightarrow> string \<Rightarrow> string" where
  "strip_defines m b s = substitute (\<lambda>t g. []) (re_scan (m_define m) b s)"

definition strip_all :: "string list \<Rightarrow> string \<Rightarrow> string" where
  "strip_all ms c = fold (\<lambda>m. re_sub (m_define m) (\<lambda>t g. [])) ms c"

definition same_line :: "string \<Rightarrow> string \<Rightarrow> bool" where
  "same_line a b \<longleftrightarrow>
     (\<exists>l X Y. a = l @ X \<and> b = l @ Y \<and> nl \<notin> set l \<and>
        ((X = [] \<and> Y = []) \<or> (\<exists>x y. X = nl # x \<and> Y = nl # y)))"

text \<open>
  A file in which a bare \<^verbatim>\<open>#define\<close> line stands before a definition of \<^verbatim>\<open>FOO\<close>, and a
  project with ordinary definitions, among them one of a longer name.
\<close>

definition split_define_text :: string where
  "split_define_text = ''#define'' @ [nl] @ ''#define FOO'' @ [nl] @ ''FOO''"

definition split_define_project :: project where
  "split_define_project =
     \<lparr>makefile = [], files = [(''src/m.c'', split_define_text)], dirs = [''src'', ''include'']\<rparr>"

definition clean_macro_text :: string where
  "clean_macro_text =
     ''#define FOO 1'' @ [nl] @ ''#define   FOOBAR 2'' @ [nl] @ ''#define BAZ 3'' @ [nl]
     @ ''int x = FOO;'' @ [nl]"

definition clean_macro_project :: project where
  "clean_macro_project =
     \<lparr>makefile = [], files = [(''src/m.c'', clean_macro_text), (''include/m.h'', clean_macro_text)],
      dirs = [''src'', ''include'']\<rparr>"

section \<open>Properties\<close>

subsection \<open>Replacement templates\<close>

lemma parse_plain:
  "bslash \<notin> set a \<Longrightarrow>
   parse_template env n (a @ b) =
     (case parse_template env n b of
        Inl e \<Rightarrow> Inl e
      | Inr ps \<Rightarrow> Inr (map (\<lambda>c. Text [c]) a @ ps))"
  by (induction a) (auto simp: text_part_def split: sum.splits)

lemma expand_plain: "expand (map (\<lambda>c. Text [c]) a @ ps) t g = a @ expand ps t g"
  by (induction a) auto

lemma parse_closing: "parse_template env n [bslash, bslash] = Inr [Text [bslash]]"
  by (simp add: bslash_def escape_char_def is_digit_def text_part_def)

lemma manifest_template_parts:
  assumes "bslash \<notin> set p"
  shows "parse_template env 1 (manifest_template p) =
           Inr (Group 1 # Text [nl] # map (\<lambda>c. Text [c]) (''    '' @ p @ '' '')
                @ [Text [bslash]])"
proof -
  have nb: "bslash \<notin> set (''    '' @ p @ '' '')" using assms by (simp add: bslash_def)
  have r: "parse_template env 1 ((''    '' @ p @ '' '') @ [bslash, bslash]) =
             Inr (map (\<lambda>c. Text [c]) (''    '' @ p @ '' '') @ [Text [bslash]])"
    by (simp only: parse_plain[OF nb] parse_closing sum.case)
  have n: "parse_template env 1 (bslash # CHR ''n'' # rest) = text_part [nl] (parse_template env 1 rest)"
    for rest
    by (simp add: bslash_def escape_char_def is_digit_def nl_def)
  have g: "parse_template env 1 (bslash # CHR ''1'' # bslash # rest)
           = group_part 1 1 (parse_template env 1 (bslash # rest))" for rest
    by (simp add: bslash_def is_digit_def digit_value_def)
  have e: "manifest_template p
           = bslash # CHR ''1'' # bslash # CHR ''n'' # ((''    '' @ p @ '' '') @ [bslash, bslash])"
    by (simp add: manifest_template_def)
  show ?thesis
    unfolding e g n r by (simp add: group_part_def text_part_def)
qed

lemma re_sub_template_plain:
  assumes "bslash \<notin> set p"
  shows "re_sub_template env 1 m (manifest_template p) s = Inr (re_sub m (manifest_entry p) s)"
proof -
  define parts where
    "parts = Group 1 # Text [nl] # map (\<lambda>c. Text [c]) (''    '' @ p @ '' '') @ [Text [bslash]]"
  have pt: "parse_template env 1 (manifest_template p) = Inr parts"
    unfolding parts_def by (rule manifest_template_parts[OF assms])
  have "expand parts = manifest_entry p"
    unfolding parts_def by (intro ext) (simp add: expand_plain manifest_entry_def)
  then show ?thesis
    unfolding re_sub_template_def pt by simp
qed

lemma add_source_text_plain:
  assumes "bslash \<notin> set source_name"
  shows "add_source_text env source_name content = Inr (entry_inserted source_name content)"
proof -
  have nb: "bslash \<notin> set (''src/'' @ source_name)" using assms by (simp add: bslash_def)
  have r: "re_sub_template env 1 m (manifest_template (''src/'' @ source_name)) content
           = Inr (re_sub m (manifest_entry (''src/'' @ source_name)) content)" for m
    by (rule re_sub_template_plain[OF nb])
  show ?thesis
    unfolding add_source_text_def entry_inserted_def tried_label_def Let_def r by simp
qed

lemma add_source_to_makefile_plain:
  assumes "bslash \<notin> set source_name"
  shows "add_source_to_makefile env source_name st
         = Inr (st\<lparr>makefile := entry_inserted source_name (makefile st)\<rparr>)"
  by (simp add: add_source_to_makefile_def add_source_text_plain[OF assms])

lemma split_on_chars: "w \<in> set (split_on d s) \<Longrightarrow> set w \<subseteq> set s"
proof (induction s arbitrary: w)
  case Nil
  then show ?case by simp
next
  case (Cons c cs)
  show ?case
  proof (cases "c = d")
    case True
    then show ?thesis using Cons by auto
  next
    case False
    show ?thesis
    proof (cases "split_on d cs")
      case Nil
      then show ?thesis using Cons False by auto
    next
      case (Cons v vs)
      then have "w = c # v \<or> w \<in> set vs" using Cons.prems False by auto
      moreover have "set v \<subseteq> set cs" using Cons.IH[of v] Cons by simp
      moreover have "w \<in> set vs \<Longrightarrow> set w \<subseteq> set cs" using Cons.IH[of w] Cons by simp
      ultimately show ?thesis by auto
    qed
  qed
qed

lemma path_name_chars: "set (path_name p) \<subseteq> set p"
proof (cases "filter (\<lambda>w. w \<noteq> [] \<and> w \<noteq> ''.'') (split_on CHR ''/'' p)")
  case Nil
  then show ?thesis by (simp add: path_name_def)
next
  case (Cons w ws)
  have "last (w # ws) \<in> set (w # ws)" by (rule last_in_set) simp
  then have "last (w # ws) \<in> set (split_on CHR ''/'' p)"
    unfolding Cons[symmetric] by simp
  then have "set (last (w # ws)) \<subseteq> set p" by (rule split_on_chars)
  then show ?thesis by (simp add: path_name_def Cons)
qed

lemma replace_all_chars: "set (replace_all old new s) \<subseteq> set new \<union> set s"
proof (induction old new s rule: replace_all.induct)
  case (1 old new)
  then show ?case by simp
next
  case (2 old new c cs)
  show ?case
  proof (cases "old \<noteq> [] \<and> prefix old (c # cs)")
    case True
    have "set (drop (length old - 1) cs) \<subseteq> set cs" by (rule set_drop_subset)
    then show ?thesis using 2(1)[OF True] True by auto
  next
    case False
    then show ?thesis using 2(2)[OF False] by auto
  qed
qed

lemma fix_missing_rule_for_returns:
  assumes "bslash \<notin> set missing_file"
  shows "\<exists>st'. fix_missing_rule_for env missing_file st = Inr st'"
proof -
  have "set (replace_all ''.o'' ''.c'' (path_name missing_file))
        \<subseteq> set ''.c'' \<union> set (path_name missing_file)"
    by (rule replace_all_chars)
  then have "bslash \<notin> set (replace_all ''.o'' ''.c'' (path_name missing_file))"
    using assms path_name_chars[of missing_file] by (auto simp: bslash_def)
  then show ?thesis
    by (simp add: fix_missing_rule_for_def Let_def add_source_to_makefile_plain)
qed

lemma fold_result_returns:
  "\<forall>x \<in> set xs. \<forall>s. \<exists>s'. f x s = Inr s' \<Longrightarrow> \<exists>s'. fold_result f xs s = Inr s'"
proof (induction xs arbitrary: s)
  case Nil
  then show ?case by simp
next
  case (Cons x xs)
  then obtain s1 where "f x s = Inr s1" by (meson list.set_intros(1))
  then show ?case using Cons by simp
qed

lemma fix_makefile_missing_rule_returns:
  assumes "\<forall>t \<in> set (re_findall missing_rule_pattern output). bslash \<notin> set t"
  shows "\<exists>st'. fix_makefile_missing_rule env output st = Inr st'"
  unfolding fix_makefile_missing_rule_def
  by (rule fold_result_returns) (use assms fix_missing_rule_for_returns in blast)

lemma create_comprehensive_stubs_returns:
  "create_comprehensive_stubs env symbols st =
     Inr (st\<lparr>files := write_file env ''src/dsrtos_stubs.c''
                         (stubs_header env @ concat (map stub_for symbols)) (files st),
             makefile := entry_inserted ''dsrtos_stubs.c'' (makefile st)\<rparr>)"
proof -
  have h: "bslash \<notin> set ''dsrtos_stubs.c''" by (simp add: bslash_def)
  show ?thesis
    by (simp add: create_comprehensive_stubs_def add_source_to_makefile_plain[OF h])
qed

subsection \<open>The build driver\<close>

text \<open>
  C7. Whatever the two runs of the build tool do, the driver returns a pair: when
  the clean run raises, the pair is \<open>(False, description)\<close>; when the clean run completes
  and the build run raises, again \<open>(False, description)\<close>; when both complete, the pair is
  the test of the build's return code against zero together with the build's standard
  output followed by its error output. The function is total, so no outcome of the tool
  leaves the driver without a returned pair.
\<close>

theorem get_compilation_output_never_raises:
  "get_compilation_output (Raised e) build = (False, e) \<and>
   get_compilation_output (Completed rc0 out0 err0) (Raised e) = (False, e) \<and>
   get_compilation_output (Completed rc0 out0 err0) (Completed rc out err) = (rc = 0, out @ err)"
  by (simp add: get_compilation_output_def)

subsection \<open>The convergence loop\<close>






lemma contains_prefix_part: "contains (a @ b) s \<Longrightarrow> contains a s"
  by (induction s) (auto dest: append_prefixD)

lemma quoted_hit_contains:
  "groups (re_scan (m_quoted pre q suf) bol s) \<noteq> [] \<Longrightarrow> contains pre s"
proof (induction "m_quoted pre q suf" bol s rule: re_scan.induct)
  case (1 bol)
  then show ?case by simp
next
  case (2 bol c cs)
  show ?case
  proof (cases "consume (m_quoted pre q suf) bol (c # cs)")
    case None
    then show ?thesis using 2 by auto
  next
    case (Some a)
    then have "m_quoted pre q suf bol (c # cs) \<noteq> None"
      by (auto simp: consume_def split: option.splits)
    then have "prefix pre (c # cs)"
      by (auto simp: m_quoted_def split: if_splits)
    then show ?thesis by simp
  qed
qed

lemma missing_rule_trigger:
  "re_findall missing_rule_pattern output \<noteq> []
    \<Longrightarrow> contains ''No rule to make target'' output"
  unfolding re_findall_def missing_rule_pattern_def
  using quoted_hit_contains
    contains_prefix_part[of "''No rule to make target''" "'' '' @ [squote]"]
  by fastforce

text \<open>
  C2, as stated, fails: the output \<^verbatim>\<open>No rule to make target\<close> (the message cut off
  before the quoted path) matches none of the extraction patterns, yet the round counts one
  fix, and a build that keeps failing with it runs all seven rounds without ever reaching
  the round without fixes.
\<close>

theorem bare_trigger_counts_as_fix:
  "no_diagnostic bare_rule_output \<and>
   map_sum (\<lambda>e. e) fst (fix_round demo_env bare_rule_output demo_project) = Inr 1 \<and>
   rounds (fst (run_dynamic_fix (failing_env bare_rule_output) demo_project)) = 7 \<and>
   No_more_fixes \<notin> set (fst (run_dynamic_fix (failing_env bare_rule_output) demo_project))"
  by code_simp

text \<open>
  C2, amended. The first three synthesizers are run on the mere presence of a text in
  the output, the last three on a match of their extraction pattern. For every round with
  a failed build whose output contains none of the texts \<^verbatim>\<open>No rule to make target\<close>,
  \<^verbatim>\<open>undeclared here (not in a function)\<close> and \<^verbatim>\<open>multiple definition\<close> and matches none
  of the patterns for undefined references, undeclared project constants and macro
  redefinitions, the fix counter is zero, the project is left as it was, and the loop stops
  in that round with the message that no more fixes can be applied and returns False.
\<close>

theorem no_trigger_stuck:
  assumes "\<not> contains ''No rule to make target'' output"
    and "\<not> contains ''undeclared here (not in a function)'' output"
    and "\<not> contains ''multiple definition'' output"
    and "re_findall undefined_reference_pattern output = []"
    and "undeclared_constants output = []"
    and "re_findall redefined_pattern output = []"
    and "build_round env iteration st = (False, output)"
  shows "fix_round env output st = Inr (0, st) \<and>
         fix_loop env (iteration # rest) st =
           ([Fix_iteration iteration, Applied 0 iteration, No_more_fixes, Could_not_resolve],
            Inr (False, st))"
  using assms by (simp add: fix_round_def apply_fix_def)

theorem no_trigger_stuck_witness:
  "fix_round (failing_env quiet_output) quiet_output demo_project = Inr (0, demo_project) \<and>
   fix_loop (failing_env quiet_output) [1, 2] demo_project =
     ([Fix_iteration 1, Applied 0 1, No_more_fixes, Could_not_resolve], Inr (False, demo_project))"
proof -
  have h1: "\<not> contains ''No rule to make target'' quiet_output" by code_simp
  have h2: "\<not> contains ''undeclared here (not in a function)'' quiet_output" by code_simp
  have h3: "\<not> contains ''multiple definition'' quiet_output" by code_simp
  have h4: "re_findall undefined_reference_pattern quiet_output = []" by code_simp
  have h5: "undeclared_constants quiet_output = []" by code_simp
  have h6: "re_findall redefined_pattern quiet_output = []" by code_simp
  have h7: "build_round (failing_env quiet_output) 1 demo_project = (False, quiet_output)"
    by (simp add: build_round_def failing_env_def demo_env_def get_compilation_output_def)
  show ?thesis using no_trigger_stuck[OF h1 h2 h3 h4 h5 h6 h7, of "[2]"] by simp
qed

text \<open>
  C3, as stated, fails: an output with a missing-build-rule diagnostic, an
  undefined-reference diagnostic and the bare words \<^verbatim>\<open>multiple definition\<close> holds no
  diagnostic of a third kind (no other extraction pattern matches), yet the round counts
  three fixes.
\<close>

theorem stray_trigger_third_fix:
  "re_findall missing_rule_pattern stray_output = [''a.o''] \<and>
   re_findall undefined_reference_pattern stray_output = [''f''] \<and>
   list_all (\<lambda>pattern. re_findall pattern stray_output = []) undeclared_patterns \<and>
   re_findall multiple_definition_pattern stray_output = [] \<and>
   undeclared_constants stray_output = [] \<and>
   re_findall redefined_pattern stray_output = [] \<and>
   map_sum (\<lambda>e. e) fst (fix_round demo_env stray_output demo_project) = Inr 3"
  by code_simp

text \<open>
  C3, amended. If the output of a round matches the missing-build-rule pattern and the
  undefined-reference pattern, no extracted target name holds a backslash, the output
  contains neither of the texts \<^verbatim>\<open>undeclared here (not in a function)\<close> and
  \<^verbatim>\<open>multiple definition\<close>, and it matches neither the pattern for undeclared project
  constants nor the one for macro redefinitions, then exactly the two synthesizers run and
  return, the one for missing build rules first and the stub synthesizer on its result, and
  the fix counter of the round is 2.
\<close>

theorem two_kinds_two_fixes:
  assumes "re_findall missing_rule_pattern output \<noteq> []"
    and "re_findall undefined_reference_pattern output \<noteq> []"
    and "\<forall>t \<in> set (re_findall missing_rule_pattern output). bslash \<notin> set t"
    and "\<not> contains ''undeclared here (not in a function)'' output"
    and "\<not> contains ''multiple definition'' output"
    and "undeclared_constants output = []"
    and "re_findall redefined_pattern output = []"
  shows "\<exists>s1 s2. fix_makefile_missing_rule env output st = Inr s1 \<and>
           create_comprehensive_stubs env
             (set_order env (re_findall undefined_reference_pattern output)) s1 = Inr s2 \<and>
           fix_round env output st = Inr (2, s2)"
proof -
  obtain s1 where s1: "fix_makefile_missing_rule env output st = Inr s1"
    using fix_makefile_missing_rule_returns[OF assms(3)] by blast
  obtain s2 where s2: "create_comprehensive_stubs env
             (set_order env (re_findall undefined_reference_pattern output)) s1 = Inr s2"
    by (simp add: create_comprehensive_stubs_returns)
  have "fix_round env output st = Inr (2, s2)"
    using assms(2,4-7) missing_rule_trigger[OF assms(1)] s1 s2
    by (simp add: fix_round_def apply_fix_def)
  then show ?thesis using s1 s2 by blast
qed

theorem two_kinds_two_fixes_witness:
  "\<exists>s1 s2. fix_makefile_missing_rule demo_env two_kinds_output demo_project = Inr s1 \<and>
           create_comprehensive_stubs demo_env [''f''] s1 = Inr s2 \<and>
           fix_round demo_env two_kinds_output demo_project = Inr (2, s2)"
proof -
  have h1: "re_findall missing_rule_pattern two_kinds_output \<noteq> []" by code_simp
  have h2: "re_findall undefined_reference_pattern two_kinds_output \<noteq> []" by code_simp
  have h3: "\<forall>t \<in> set (re_findall missing_rule_pattern two_kinds_output). bslash \<notin> set t"
    by code_simp
  have h4: "\<not> contains ''undeclared here (not in a function)'' two_kinds_output" by code_simp
  have h5: "\<not> contains ''multiple definition'' two_kinds_output" by code_simp
  have h6: "undeclared_constants two_kinds_output = []" by code_simp
  have h7: "re_findall redefined_pattern two_kinds_output = []" by code_simp
  have o: "set_order demo_env (re_findall undefined_reference_pattern two_kinds_output) = [''f'']"
    by code_simp
  show ?thesis using two_kinds_two_fixes[OF h1 h2 h3 h4 h5 h6 h7, of demo_env demo_project]
    unfolding o by simp
qed

subsection \<open>Manifest insertion and stub synthesis\<close>

lemma contains_sublist: "contains p s \<longleftrightarrow> sublist p s"
  by (induction s) (auto simp: sublist_Cons_right)

lemma scan_no_hit:
  "groups (re_scan m bol s) = [] \<Longrightarrow> substitute r (re_scan m bol s) = s"
  by (induction m bol s rule: re_scan.induct) (auto split: option.splits)

lemma label_match_shape:
  assumes "m_label lbl bol s = Some (g, rest)"
  shows "\<exists>t. s = t @ bslash # rest \<and> g = t @ [bslash]"
proof -
  from assms obtain s1 where s: "s = lbl @ s1"
    by (auto simp: m_label_def prefix_def split: if_splits)
  from assms s obtain r where r: "dropWhile is_space s1 = CHR ''='' # r"
    by (auto simp: m_label_def split: if_splits list.splits)
  from assms s r have r': "dropWhile is_space r = bslash # rest"
    by (auto simp: m_label_def split: if_splits list.splits)
  from assms s r r' have g: "g = take (length s - length rest) s"
    by (auto simp: m_label_def split: if_splits list.splits)
  have "s1 = takeWhile is_space s1 @ CHR ''='' # r"
    using r takeWhile_dropWhile_id[of is_space s1] by simp
  moreover have "r = takeWhile is_space r @ bslash # rest"
    using r' takeWhile_dropWhile_id[of is_space r] by simp
  ultimately have e: "s = (lbl @ takeWhile is_space s1 @ CHR ''='' # takeWhile is_space r) @ bslash # rest"
    using s by simp
  let ?t = "lbl @ takeWhile is_space s1 @ CHR ''='' # takeWhile is_space r"
  have "take (length s - length rest) s = ?t @ [bslash]"
    by (subst (1 2) e) simp
  then show ?thesis using e g by blast
qed

lemma label_hit_shape:
  assumes "consume (m_label lbl) bol s = Some (g, rest)"
  shows "\<exists>t. s = t @ bslash # rest \<and> g = t @ [bslash] \<and> take (length s - length rest) s = g"
proof -
  have m: "m_label lbl bol s = Some (g, rest)"
    using assms by (auto simp: consume_def split: option.splits if_splits)
  from label_match_shape[OF m] obtain t where t: "s = t @ bslash # rest" "g = t @ [bslash]" by blast
  have "take (length s - length rest) s = g" by (subst (1 2) t(1)) (simp add: t(2))
  then show ?thesis using t by blast
qed


lemma prefix_stops_before:
  assumes "prefix p (t @ b # ys)" and "b \<notin> set p"
  shows "prefix p t"
proof -
  from assms(1) consider "prefix p t" | us where "p = t @ us" "prefix us (b # ys)"
    by (auto simp: prefix_append)
  then show ?thesis
  proof cases
    case 1
    then show ?thesis .
  next
    case 2
    then show ?thesis using assms(2) by (cases us) auto
  qed
qed

lemma prefix_of_inserted:
  "bslash \<notin> set p \<Longrightarrow>
   prefix p (substitute (manifest_entry q) (re_scan (m_label lbl) bol s)) \<Longrightarrow> prefix p s"
proof (induction "m_label lbl" bol s arbitrary: p rule: re_scan.induct)
  case (1 bol)
  then show ?case by simp
next
  case (2 bol c cs)
  show ?case
  proof (cases "consume (m_label lbl) bol (c # cs)")
    case None
    with 2 show ?thesis by (cases p) auto
  next
    case (Some a)
    obtain g rest where a: "a = (g, rest)" by (cases a)
    from label_hit_shape[OF Some[unfolded a]] obtain t where
      t: "c # cs = t @ bslash # rest" "g = t @ [bslash]"
         "take (length (c # cs) - length rest) (c # cs) = g" by blast
    have "prefix p (t @ bslash # ([nl] @ ''    '' @ q @ '' '' @ [bslash]
             @ substitute (manifest_entry q) (re_scan (m_label lbl) (last g = nl) rest)))"
      using "2.prems"(2) Some a t(2,3) by (simp add: manifest_entry_def)
    then have "prefix p t" using "2.prems"(1) by (rule prefix_stops_before)
    then show ?thesis unfolding t(1) by (rule prefix_prefix)
  qed
qed

lemma count_skip:
  "(\<forall>i<length xs. \<not> prefix p (drop i xs @ ys)) \<Longrightarrow> count_refs p (xs @ ys) = count_refs p ys"
proof (induction xs)
  case Nil
  then show ?case by simp
next
  case (Cons x xs)
  have "\<not> prefix p (drop 0 (x # xs) @ ys)" using Cons.prems by blast
  moreover have "\<forall>i<length xs. \<not> prefix p (drop i xs @ ys)"
  proof (intro allI impI)
    fix i assume "i < length xs"
    then have "\<not> prefix p (drop (Suc i) (x # xs) @ ys)" using Cons.prems by auto
    then show "\<not> prefix p (drop i xs @ ys)" by simp
  qed
  ultimately show ?case using Cons.IH by simp
qed

lemma rotate_same: "a # q = q @ [b] \<Longrightarrow> a = b"
  by (induction q arbitrary: a) auto

lemma sublist_drop_prefix: "prefix p (drop i t) \<Longrightarrow> sublist p (t @ ys)"
proof -
  assume "prefix p (drop i t)"
  then obtain zs where "drop i t = p @ zs" by (auto simp: prefix_def)
  then have "t @ ys = take i t @ p @ (zs @ ys)"
    by (metis append.assoc append_take_drop_id)
  then show ?thesis unfolding sublist_def by blast
qed

lemma count_inserted_entry:
  assumes nb: "bslash \<notin> set q" and nt: "\<not> sublist (CHR ''s'' # q) t"
  shows "count_refs (CHR ''s'' # q)
           (t @ bslash # nl # ''    '' @ (CHR ''s'' # q) @ CHR '' '' # bslash # R)
         = Suc (count_refs (CHR ''s'' # q) R)"
proof -
  let ?p = "CHR ''s'' # q"
  let ?V = "CHR '' '' # bslash # R"
  let ?W = "bslash # nl # ''    '' @ ?p @ ?V"
  have nbp: "bslash \<notin> set ?p" using nb by (simp add: bslash_def)
  have 1: "count_refs ?p (t @ ?W) = count_refs ?p ?W"
  proof (rule count_skip, intro allI impI)
    fix i assume "i < length t"
    show "\<not> prefix ?p (drop i t @ ?W)"
    proof
      assume "prefix ?p (drop i t @ ?W)"
      then have "prefix ?p (drop i t)" using nbp by (rule prefix_stops_before)
      then have "sublist ?p (t @ [])" by (rule sublist_drop_prefix)
      then show False using nt by simp
    qed
  qed
  have 2: "count_refs ?p ?W = Suc (count_refs ?p (q @ ?V))"
    by (simp add: bslash_def nl_def)
  have 3: "count_refs ?p (q @ ?V) = count_refs ?p ?V"
  proof (rule count_skip, intro allI impI)
    fix i assume i: "i < length q"
    show "\<not> prefix ?p (drop i q @ ?V)"
    proof
      assume a: "prefix ?p (drop i q @ ?V)"
      have "\<not> prefix ?p (drop i q)" using i by (auto dest: prefix_length_le)
      with a obtain us where us: "?p = drop i q @ us" "prefix us ?V"
        by (auto simp: prefix_append)
      have "us \<noteq> []" using us(1) i by (auto dest: arg_cong[where f=length])
      then obtain us' where us': "us = CHR '' '' # us'" "prefix us' (bslash # R)"
        using us(2) by (cases us) auto
      have "us' = []" using us' us(1) nbp by (cases us') (auto simp: bslash_def)
      then have e: "?p = drop i q @ [CHR '' '']" using us us' by simp
      then have "length q = length (drop i q)" by (auto dest: arg_cong[where f=length])
      then have "i = 0" using i by simp
      then have "drop i q = q" by simp
      with e have "CHR ''s'' # q = q @ [CHR '' '']" by simp
      then have "CHR ''s'' = CHR '' ''" by (rule rotate_same)
      then show False by simp
    qed
  qed
  have 4: "count_refs ?p ?V = count_refs ?p R" by (simp add: bslash_def)
  show ?thesis using 1 2 3 4 by simp
qed

lemma sublist_in_left: "sublist p t \<Longrightarrow> sublist p (t @ ys)"
  unfolding sublist_def by (metis append.assoc)

lemma sublist_in_right: "sublist p ys \<Longrightarrow> sublist p (xs @ ys)"
  unfolding sublist_def by (metis append.assoc)

lemma count_refs_inserted:
  "bslash \<notin> set q \<Longrightarrow> \<not> sublist (CHR ''s'' # q) s \<Longrightarrow>
   count_refs (CHR ''s'' # q)
     (substitute (manifest_entry (CHR ''s'' # q)) (re_scan (m_label lbl) bol s))
   = length (groups (re_scan (m_label lbl) bol s))"
proof (induction "m_label lbl" bol s rule: re_scan.induct)
  case (1 bol)
  then show ?case by simp
next
  case (2 bol c cs)
  let ?p = "CHR ''s'' # q"
  have nbp: "bslash \<notin> set ?p" using "2.prems"(1) by (simp add: bslash_def)
  show ?case
  proof (cases "consume (m_label lbl) bol (c # cs)")
    case None
    have ns: "\<not> sublist ?p cs" using "2.prems"(2) by (auto simp: sublist_Cons_right)
    have np: "\<not> prefix ?p (c # cs)" using "2.prems"(2) by (simp add: sublist_Cons_right)
    have "\<not> prefix ?p (substitute (manifest_entry ?p) (re_scan (m_label lbl) bol (c # cs)))"
      using prefix_of_inserted[OF nbp, of ?p lbl bol "c # cs"] np by blast
    then show ?thesis using None "2.hyps"(1)[OF None "2.prems"(1) ns] by simp
  next
    case (Some a)
    obtain g rest where a: "a = (g, rest)" by (cases a)
    from label_hit_shape[OF Some[unfolded a]] obtain t where
      t: "c # cs = t @ bslash # rest" "g = t @ [bslash]"
         "take (length (c # cs) - length rest) (c # cs) = g" by blast
    have nt: "\<not> sublist ?p t"
      using "2.prems"(2) unfolding t(1) by (auto dest: sublist_in_left)
    have nr: "\<not> sublist ?p rest"
      using "2.prems"(2) sublist_in_right[of ?p rest "t @ [bslash]"] unfolding t(1) by auto
    have ih: "count_refs ?p (substitute (manifest_entry ?p)
                 (re_scan (m_label lbl) (last g = nl) rest))
              = length (groups (re_scan (m_label lbl) (last g = nl) rest))"
      using "2.hyps"(2)[OF Some[unfolded a] refl "2.prems"(1) nr] t(3) by simp
    show ?thesis
      using Some a t(2,3) ih count_inserted_entry[OF "2.prems"(1) nt]
      by (simp add: manifest_entry_def)
  qed
qed

lemma count_refs_pos: "0 < count_refs p s \<longleftrightarrow> contains p s"
  by (induction s) auto

lemma entry_inserted_count:
  assumes "bslash \<notin> set source_name" and "\<not> contains (''src/'' @ source_name) content"
  shows "count_refs (''src/'' @ source_name) (entry_inserted source_name content)
         = length (re_findall (m_label (tried_label content)) content)"
proof -
  have nb: "bslash \<notin> set (''rc/'' @ source_name)" using assms(1) by (simp add: bslash_def)
  have ns: "\<not> sublist (CHR ''s'' # ''rc/'' @ source_name) content"
    using assms(2) by (simp add: contains_sublist)
  show ?thesis
    using count_refs_inserted[OF nb ns, of "tried_label content" True] assms(2)
    by (simp add: entry_inserted_def re_sub_def re_findall_def)
qed

lemma entry_inserted_twice:
  assumes "bslash \<notin> set source_name"
  shows "entry_inserted source_name (entry_inserted source_name content)
         = entry_inserted source_name content"
proof (cases "contains (''src/'' @ source_name) content")
  case True
  then show ?thesis by (simp add: entry_inserted_def)
next
  case False
  show ?thesis
  proof (cases "re_findall (m_label (tried_label content)) content = []")
    case True
    then have "entry_inserted source_name content = content"
      using False scan_no_hit by (simp add: entry_inserted_def re_sub_def re_findall_def)
    then show ?thesis by simp
  next
    case nonempty: False
    have "0 < count_refs (''src/'' @ source_name) (entry_inserted source_name content)"
      using entry_inserted_count[OF assms False] nonempty by simp
    then have "contains (''src/'' @ source_name) (entry_inserted source_name content)"
      by (simp only: count_refs_pos)
    then show ?thesis by (subst entry_inserted_def) simp
  qed
qed

text \<open>
  C4, amended. For every manifest text and every source file name without a backslash,
  the insertion returns, inserting twice gives the same manifest text as inserting once,
  and inserting a path the manifest already contains changes nothing. When the path was
  not contained, its number of occurrences after the insertion is the number of places at
  which the tried label (\<^verbatim>\<open>PHASE1_C_SOURCES\<close> if that word occurs in the manifest,
  \<^verbatim>\<open>C_SOURCES\<close> otherwise) matches the line-continuation assignment pattern: one exactly
  when there is one such place.
\<close>

theorem add_source_idempotent:
  assumes "bslash \<notin> set source_name"
  shows "\<exists>c1. add_source_text env source_name content = Inr c1 \<and>
              add_source_text env source_name c1 = Inr c1 \<and>
              (contains (''src/'' @ source_name) content \<longrightarrow> c1 = content) \<and>
              (\<not> contains (''src/'' @ source_name) content
                 \<longrightarrow> count_refs (''src/'' @ source_name) c1
                     = length (re_findall (m_label (tried_label content)) content))"
proof -
  let ?c1 = "entry_inserted source_name content"
  have 1: "add_source_text env source_name content = Inr ?c1"
    by (rule add_source_text_plain[OF assms])
  have 2: "add_source_text env source_name ?c1 = Inr ?c1"
    by (simp add: add_source_text_plain[OF assms] entry_inserted_twice[OF assms])
  have 3: "contains (''src/'' @ source_name) content \<longrightarrow> ?c1 = content"
    by (simp add: entry_inserted_def)
  have 4: "\<not> contains (''src/'' @ source_name) content
             \<longrightarrow> count_refs (''src/'' @ source_name) ?c1
                 = length (re_findall (m_label (tried_label content)) content)"
    using entry_inserted_count[OF assms] by blast
  show ?thesis using 1 2 3 4 by blast
qed

theorem add_source_idempotent_witness:
  "\<exists>c1. add_source_text demo_env ''x.c'' one_label_manifest = Inr c1 \<and>
         add_source_text demo_env ''x.c'' c1 = Inr c1 \<and>
         count_refs ''src/x.c'' c1 = 1"
proof -
  have h: "bslash \<notin> set ''x.c''" by code_simp
  have n: "\<not> contains (''src/'' @ ''x.c'') one_label_manifest" by code_simp
  have l: "length (re_findall (m_label (tried_label one_label_manifest)) one_label_manifest) = 1"
    by code_simp
  show ?thesis using add_source_idempotent[OF h, of demo_env one_label_manifest] n l by auto
qed

text \<open>
  C4, as stated, fails in its count: the fallback pattern also matches inside the name
  of another source list, and every match receives the entry. In a manifest with the lists
  \<^verbatim>\<open>C_SOURCES\<close> and \<^verbatim>\<open>PHASE2_C_SOURCES\<close> one insertion leaves two references.
\<close>

theorem second_label_second_entry:
  "\<not> contains ''src/x.c'' two_label_manifest \<and>
   map_sum (\<lambda>e. e) (count_refs ''src/x.c'') (add_source_text demo_env ''x.c'' two_label_manifest)
     = Inr 2"
  by code_simp

text \<open>
  C9, as stated, fails for a file name that is no valid replacement template: with a
  backslash before a letter that is no escape, \<^verbatim>\<open>re.sub\<close> raises before it looks for a
  match, and the manifest is not written back at all.
\<close>

theorem rejected_template_no_rewrite:
  "contains ''PHASE1_C_SOURCES'' unmatched_primary_manifest \<and>
   re_findall (m_label ''PHASE1_C_SOURCES'') unmatched_primary_manifest = [] \<and>
   \<not> contains (''src/'' @ backslash_name) unmatched_primary_manifest \<and>
   add_source_text demo_env backslash_name unmatched_primary_manifest = Inl Template_rejected \<and>
   add_source_to_makefile demo_env backslash_name
     (demo_project\<lparr>makefile := unmatched_primary_manifest\<rparr>) = Inl Template_rejected"
  by code_simp

text \<open>
  C9, amended. If the manifest contains the word \<^verbatim>\<open>PHASE1_C_SOURCES\<close> but no place
  matches the line-continuation assignment pattern of that label, then inserting a path
  that is not yet contained ends as the reading of the replacement template ends: with
  the exception when the template is rejected, and otherwise with the manifest written
  back unchanged. For a name without a backslash the template is accepted: the manifest
  is written back unchanged, the fallback label is not tried and the path stays
  unregistered.
\<close>

theorem primary_label_without_continuation:
  assumes "contains ''PHASE1_C_SOURCES'' content"
    and "re_findall (m_label ''PHASE1_C_SOURCES'') content = []"
    and "\<not> contains (''src/'' @ source_name) content"
  shows "add_source_text env source_name content =
           (case parse_template env 1 (manifest_template (''src/'' @ source_name)) of
              Inl e \<Rightarrow> Inl e
            | Inr parts \<Rightarrow> Inr content) \<and>
         (bslash \<notin> set source_name \<longrightarrow>
            add_source_text env source_name content = Inr content \<and>
            add_source_to_makefile env source_name (st\<lparr>makefile := content\<rparr>)
              = Inr (st\<lparr>makefile := content\<rparr>))"
proof -
  have same: "re_sub (m_label ''PHASE1_C_SOURCES'') r content = content" for r
    using assms(2) scan_no_hit by (simp add: re_sub_def re_findall_def)
  have 1: "add_source_text env source_name content =
           (case parse_template env 1 (manifest_template (''src/'' @ source_name)) of
              Inl e \<Rightarrow> Inl e
            | Inr parts \<Rightarrow> Inr content)"
    using assms(1,3)
    by (simp add: add_source_text_def re_sub_template_def same split: sum.splits)
  have 2: "add_source_text env source_name content = Inr content"
    if nb: "bslash \<notin> set source_name"
    using assms(1,3) by (simp add: add_source_text_plain[OF nb] entry_inserted_def tried_label_def same)
  have 3: "add_source_to_makefile env source_name (st\<lparr>makefile := content\<rparr>)
              = Inr (st\<lparr>makefile := content\<rparr>)"
    if nb: "bslash \<notin> set source_name"
    using 2[OF nb] by (simp add: add_source_to_makefile_def)
  show ?thesis using 1 2 3 by blast
qed

theorem primary_label_without_continuation_witness:
  "add_source_text demo_env ''x.c'' unmatched_primary_manifest = Inr unmatched_primary_manifest \<and>
   re_findall (m_label ''C_SOURCES'') unmatched_primary_manifest \<noteq> [] \<and>
   \<not> contains ''src/x.c'' unmatched_primary_manifest"
proof -
  have h1: "bslash \<notin> set ''x.c''" by code_simp
  have h2: "contains ''PHASE1_C_SOURCES'' unmatched_primary_manifest" by code_simp
  have h3: "re_findall (m_label ''PHASE1_C_SOURCES'') unmatched_primary_manifest = []" by code_simp
  have h4: "\<not> contains (''src/'' @ ''x.c'') unmatched_primary_manifest" by code_simp
  have h5: "re_findall (m_label ''C_SOURCES'') unmatched_primary_manifest \<noteq> []" by code_simp
  have "bslash \<notin> set ''x.c'' \<longrightarrow>
          add_source_text demo_env ''x.c'' unmatched_primary_manifest
            = Inr unmatched_primary_manifest \<and>
          add_source_to_makefile demo_env ''x.c''
              (demo_project\<lparr>makefile := unmatched_primary_manifest\<rparr>)
            = Inr (demo_project\<lparr>makefile := unmatched_primary_manifest\<rparr>)"
    using primary_label_without_continuation[OF h2 h3 h4, of demo_env demo_project]
    by (rule conjunct2)
  then show ?thesis using h1 h4 h5 by simp
qed

lemma map_of_rewritten:
  "p \<in> fst ` set fs \<Longrightarrow>
   map_of (map (\<lambda>(q, d). if q = p then (q, c) else (q, d)) fs) p = Some c"
proof (induction fs)
  case Nil
  then show ?case by simp
next
  case (Cons x fs)
  obtain q d where x: "x = (q, d)" by (cases x)
  show ?case
  proof (cases "q = p")
    case True
    then show ?thesis by (simp add: x)
  next
    case False
    then have "p \<in> fst ` set fs" using Cons.prems x by auto
    then show ?thesis using Cons.IH False by (simp add: x)
  qed
qed

lemma map_of_write_file: "map_of (write_file env p c fs) p = Some c"
proof (cases "p \<in> fst ` set fs")
  case True
  then show ?thesis using map_of_rewritten[OF True] by (simp add: write_file_def)
next
  case False
  define k where "k = min (new_position env p (map fst fs)) (length fs)"
  have "p \<notin> fst ` set (take k fs)" using False set_take_subset[of k fs] by blast
  then have "map_of (take k fs) p = None" by (simp add: map_of_eq_None_iff)
  then have "map_of (take k fs @ (p, c) # drop k fs) p = Some c"
    by (simp add: map_add_def)
  then show ?thesis using False by (simp add: write_file_def k_def Let_def)
qed

lemma two_orders:
  assumes "distinct xs" and "set xs = {a, b}" and "a \<noteq> b"
  shows "xs = [a, b] \<or> xs = [b, a]"
proof -
  have "length xs = 2" using distinct_card[OF assms(1)] assms(2,3) by simp
  then obtain x y where "xs = [x, y]"
    by (cases xs; cases "tl xs") auto
  then show ?thesis using assms(2,3) by (auto simp: doubleton_eq_iff)
qed

text \<open>
  C5, amended. For the symbol set of \<^verbatim>\<open>dsrtos_memory_init\<close> and \<^verbatim>\<open>foo_unused\<close>, in either
  order of iteration, the call returns and the stub file \<^verbatim>\<open>src/dsrtos_stubs.c\<close> holds the
  header followed by one line per symbol, each a \<^verbatim>\<open>uint32_t\<close> function returning \<^verbatim>\<open>0U\<close>
  (the memory-init body for the first symbol, the fallback body for the second). A
  manifest that already contains the stub path is left as it is; otherwise the path occurs
  afterwards as often as the tried label matches the line-continuation pattern, exactly
  once when there is exactly one such place.
\<close>

theorem stubs_for_two_symbols:
  assumes "distinct symbols"
    and "set symbols = {''dsrtos_memory_init'', ''foo_unused''}"
  shows "\<exists>st'. create_comprehensive_stubs env symbols st = Inr st' \<and>
         map_of (files st') ''src/dsrtos_stubs.c''
           = Some (stubs_header env @ concat (map stub_for symbols)) \<and>
         (concat (map stub_for symbols)
            = ''uint32_t dsrtos_memory_init(void) { return 0U; }'' @ [nl]
              @ ''uint32_t foo_unused(void) { return 0U; }'' @ [nl] \<or>
          concat (map stub_for symbols)
            = ''uint32_t foo_unused(void) { return 0U; }'' @ [nl]
              @ ''uint32_t dsrtos_memory_init(void) { return 0U; }'' @ [nl]) \<and>
         (contains ''src/dsrtos_stubs.c'' (makefile st) \<longrightarrow> makefile st' = makefile st) \<and>
         (\<not> contains ''src/dsrtos_stubs.c'' (makefile st)
            \<longrightarrow> count_refs ''src/dsrtos_stubs.c'' (makefile st')
                = length (re_findall (m_label (tried_label (makefile st))) (makefile st)))"
proof -
  have a: "stub_for ''dsrtos_memory_init''
             = ''uint32_t dsrtos_memory_init(void) { return 0U; }'' @ [nl]" by code_simp
  have b: "stub_for ''foo_unused'' = ''uint32_t foo_unused(void) { return 0U; }'' @ [nl]"
    by code_simp
  have ne: "''dsrtos_memory_init'' \<noteq> ''foo_unused''" by simp
  have o: "symbols = [''dsrtos_memory_init'', ''foo_unused'']
           \<or> symbols = [''foo_unused'', ''dsrtos_memory_init'']"
    using two_orders[OF assms ne] .
  have h: "bslash \<notin> set ''dsrtos_stubs.c''" by code_simp
  define st' where
    "st' = st\<lparr>files := write_file env ''src/dsrtos_stubs.c''
                         (stubs_header env @ concat (map stub_for symbols)) (files st),
             makefile := entry_inserted ''dsrtos_stubs.c'' (makefile st)\<rparr>"
  have r: "create_comprehensive_stubs env symbols st = Inr st'"
    unfolding st'_def by (rule create_comprehensive_stubs_returns)
  have m: "makefile st' = entry_inserted ''dsrtos_stubs.c'' (makefile st)"
    by (simp add: st'_def)
  have f: "files st' = write_file env ''src/dsrtos_stubs.c''
               (stubs_header env @ concat (map stub_for symbols)) (files st)"
    by (simp add: st'_def)
  have c: "concat (map stub_for symbols)
            = ''uint32_t dsrtos_memory_init(void) { return 0U; }'' @ [nl]
              @ ''uint32_t foo_unused(void) { return 0U; }'' @ [nl] \<or>
          concat (map stub_for symbols)
            = ''uint32_t foo_unused(void) { return 0U; }'' @ [nl]
              @ ''uint32_t dsrtos_memory_init(void) { return 0U; }'' @ [nl]"
    using o a b by auto
  have k: "(contains ''src/dsrtos_stubs.c'' (makefile st)
            \<longrightarrow> entry_inserted ''dsrtos_stubs.c'' (makefile st) = makefile st) \<and>
         (\<not> contains ''src/dsrtos_stubs.c'' (makefile st)
            \<longrightarrow> count_refs ''src/dsrtos_stubs.c''
                  (entry_inserted ''dsrtos_stubs.c'' (makefile st))
                = length (re_findall (m_label (tried_label (makefile st))) (makefile st)))"
    using entry_inserted_count[OF h, of "makefile st"]
    by (simp add: entry_inserted_def)
  have "map_of (files st') ''src/dsrtos_stubs.c''
           = Some (stubs_header env @ concat (map stub_for symbols))"
    unfolding f by (rule map_of_write_file)
  then show ?thesis using r c k unfolding m[symmetric] by blast
qed

theorem stubs_for_two_symbols_witness:
  "\<exists>st'. create_comprehensive_stubs demo_env [''foo_unused'', ''dsrtos_memory_init'']
            demo_project = Inr st' \<and>
         map_of (files st') ''src/dsrtos_stubs.c''
           = Some (stubs_header demo_env
                   @ ''uint32_t foo_unused(void) { return 0U; }'' @ [nl]
                   @ ''uint32_t dsrtos_memory_init(void) { return 0U; }'' @ [nl]) \<and>
         count_refs ''src/dsrtos_stubs.c'' (makefile st') = 1"
proof -
  have d: "distinct [''foo_unused'', ''dsrtos_memory_init'']" by simp
  have s: "set [''foo_unused'', ''dsrtos_memory_init''] = {''dsrtos_memory_init'', ''foo_unused''}"
    by auto
  have n: "\<not> contains ''src/dsrtos_stubs.c'' (makefile demo_project)" by code_simp
  have l: "length (re_findall (m_label (tried_label (makefile demo_project)))
                     (makefile demo_project)) = 1"
    by code_simp
  have c: "concat (map stub_for [''foo_unused'', ''dsrtos_memory_init''])
           = ''uint32_t foo_unused(void) { return 0U; }'' @ [nl]
             @ ''uint32_t dsrtos_memory_init(void) { return 0U; }'' @ [nl]"
    by code_simp
  from stubs_for_two_symbols[OF d s, of demo_env demo_project]
  obtain st' where
    r: "create_comprehensive_stubs demo_env [''foo_unused'', ''dsrtos_memory_init'']
          demo_project = Inr st'"
    and f: "map_of (files st') ''src/dsrtos_stubs.c''
           = Some (stubs_header demo_env
                   @ concat (map stub_for [''foo_unused'', ''dsrtos_memory_init'']))"
    and k: "\<not> contains ''src/dsrtos_stubs.c'' (makefile demo_project)
            \<longrightarrow> count_refs ''src/dsrtos_stubs.c'' (makefile st')
                = length (re_findall (m_label (tried_label (makefile demo_project)))
                            (makefile demo_project))"
    by blast
  have "count_refs ''src/dsrtos_stubs.c'' (makefile st') = 1" using k n l by simp
  then show ?thesis using r f[unfolded c] by blast
qed

text \<open>
  C5, as stated, fails in its last part: with a manifest whose source list is not in
  the line-continuation form, the stub file is written but its path is not registered.
\<close>

theorem stubs_not_registered:
  "map_sum (\<lambda>e. e) (\<lambda>st'. count_refs ''src/dsrtos_stubs.c'' (makefile st'))
     (create_comprehensive_stubs demo_env [''dsrtos_memory_init'', ''foo_unused''] flat_project)
   = Inr 0"
  by code_simp

subsection \<open>The constants header\<close>

lemma map_of_add_include:
  "map_of (map (add_include constants) fs) p =
     map_option (\<lambda>c. snd (add_include constants (p, c))) (map_of fs p)"
  by (induction fs) (auto simp: add_include_def)

lemma map_of_write_other: "p \<noteq> q \<Longrightarrow> map_of (write_file env q d fs) p = map_of fs p"
proof (cases "q \<in> fst ` set fs")
  case True
  assume "p \<noteq> q"
  then have "map_of (map (\<lambda>(k, v). if k = q then (k, d) else (k, v)) fs) p = map_of fs p"
    by (induction fs) auto
  then show ?thesis using True by (simp add: write_file_def)
next
  case False
  assume ne: "p \<noteq> q"
  define k where "k = min (new_position env q (map fst fs)) (length fs)"
  have a: "map_of (take k fs @ (q, d) # drop k fs) p
           = (map_of ((q, d) # drop k fs) ++ map_of (take k fs)) p"
    by (simp only: map_of_append)
  have b: "map_of (take k fs @ drop k fs) p = (map_of (drop k fs) ++ map_of (take k fs)) p"
    by (simp only: map_of_append)
  have c: "map_of ((q, d) # drop k fs) p = map_of (drop k fs) p" using ne by simp
  have "map_of (take k fs @ (q, d) # drop k fs) p = map_of (take k fs @ drop k fs) p"
    unfolding a b map_add_def c ..
  then have "map_of (take k fs @ (q, d) # drop k fs) p = map_of fs p" by simp
  then show ?thesis using False by (simp add: write_file_def k_def Let_def)
qed

lemma include_counted_once:
  assumes "\<not> contains ''dsrtos_auto_constants.h'' c"
  shows "count_refs ''dsrtos_auto_constants.h'' (include_directive @ c) = 1"
proof -
  have "count_refs ''dsrtos_auto_constants.h'' c = 0"
    using assms count_refs_pos[of "''dsrtos_auto_constants.h''" c] by simp
  then show ?thesis by (simp add: include_directive_def dquote_def nl_def)
qed


lemma header_not_source: "\<not> is_src_c header_path"
  by code_simp

text \<open>
  C6, as stated, fails: the program tests whether the text of a file contains the name
  of the header, not whether the file includes it. A file that uses a constant and names
  the header in a comment has no include directive, and it gains none.
\<close>

theorem mention_without_include:
  "is_src_c ''src/heap.c'' \<and> contains ''DSRTOS_HEAP_SIZE'' mention_text \<and>
   \<not> contains ''#include'' mention_text \<and>
   map_of (files (create_constants_file demo_env [''DSRTOS_ERROR_FATAL'', ''DSRTOS_HEAP_SIZE'']
                    mention_project)) ''src/heap.c''
     = Some mention_text"
  by code_simp

text \<open>
  C6, amended. For the constant set of \<^verbatim>\<open>DSRTOS_ERROR_FATAL\<close> and \<^verbatim>\<open>DSRTOS_HEAP_SIZE\<close>, in
  either order of iteration, the generated header holds the preamble, the line defining
  \<^verbatim>\<open>DSRTOS_ERROR_FATAL\<close> as \<^verbatim>\<open>0x1000000AU\<close> and the line defining \<^verbatim>\<open>DSRTOS_HEAP_SIZE\<close> as
  \<^verbatim>\<open>32768U\<close>, and the closing lines. Every \<^verbatim>\<open>.c\<close> file below \<^verbatim>\<open>src\<close> whose text contains
  one of the two names and does not contain the text \<^verbatim>\<open>dsrtos_auto_constants.h\<close> anywhere
  has the include directive put in front of its text, which then contains the header's
  name exactly once; every other \<^verbatim>\<open>.c\<close> file below \<^verbatim>\<open>src\<close> keeps its text.
\<close>

theorem constants_header_and_includes:
  assumes "distinct constants"
    and "set constants = {''DSRTOS_ERROR_FATAL'', ''DSRTOS_HEAP_SIZE''}"
  shows "map_of (files (create_constants_file env constants st)) header_path
           = Some (constants_header constants) \<and>
         (constants_header constants
            = constants_preamble @ fatal_line @ heap_line @ [nl] @ ''#endif'' @ [nl] \<or>
          constants_header constants
            = constants_preamble @ heap_line @ fatal_line @ [nl] @ ''#endif'' @ [nl]) \<and>
         (\<forall>p c. map_of (files st) p = Some c \<and> is_src_c p \<longrightarrow>
            map_of (files (create_constants_file env constants st)) p
              = Some (if (contains ''DSRTOS_ERROR_FATAL'' c \<or> contains ''DSRTOS_HEAP_SIZE'' c)
                         \<and> \<not> contains header_name c
                      then include_directive @ c else c)) \<and>
         (\<forall>c. \<not> contains header_name c \<longrightarrow> count_refs header_name (include_directive @ c) = 1)"
proof -
  let ?st' = "create_constants_file env constants st"
  have fs: "files ?st' = map (add_include constants)
              (write_file env header_path (constants_header constants) (files st))"
    by (simp add: create_constants_file_def header_path_def)
  have 1: "map_of (files ?st') header_path = Some (constants_header constants)"
    using header_not_source
    by (simp add: fs map_of_add_include map_of_write_file add_include_def)
  have f: "define_line ''DSRTOS_ERROR_FATAL'' = fatal_line" by code_simp
  have h: "define_line ''DSRTOS_HEAP_SIZE'' = heap_line" by code_simp
  have ne: "''DSRTOS_ERROR_FATAL'' \<noteq> ''DSRTOS_HEAP_SIZE''" by simp
  have "constants = [''DSRTOS_ERROR_FATAL'', ''DSRTOS_HEAP_SIZE'']
        \<or> constants = [''DSRTOS_HEAP_SIZE'', ''DSRTOS_ERROR_FATAL'']"
    using two_orders[OF assms ne] .
  then have 2: "constants_header constants
            = constants_preamble @ fatal_line @ heap_line @ [nl] @ ''#endif'' @ [nl] \<or>
          constants_header constants
            = constants_preamble @ heap_line @ fatal_line @ [nl] @ ''#endif'' @ [nl]"
    using f h by (auto simp: constants_header_def)
  have ex: "\<And>c. list_ex (\<lambda>const. contains const c) constants
              \<longleftrightarrow> contains ''DSRTOS_ERROR_FATAL'' c \<or> contains ''DSRTOS_HEAP_SIZE'' c"
    using assms(2) by (simp add: list_ex_iff)
  have 3: "\<forall>p c. map_of (files st) p = Some c \<and> is_src_c p \<longrightarrow>
            map_of (files ?st') p
              = Some (if (contains ''DSRTOS_ERROR_FATAL'' c \<or> contains ''DSRTOS_HEAP_SIZE'' c)
                         \<and> \<not> contains header_name c
                      then include_directive @ c else c)"
  proof (intro allI impI)
    fix p c
    assume a: "map_of (files st) p = Some c \<and> is_src_c p"
    then have "p \<noteq> header_path" using header_not_source by auto
    then have "map_of (write_file env header_path (constants_header constants) (files st)) p = Some c"
      using a by (simp add: map_of_write_other)
    then show "map_of (files ?st') p
              = Some (if (contains ''DSRTOS_ERROR_FATAL'' c \<or> contains ''DSRTOS_HEAP_SIZE'' c)
                         \<and> \<not> contains header_name c
                      then include_directive @ c else c)"
      using a ex by (simp add: fs map_of_add_include add_include_def header_name_def)
  qed
  have 4: "\<forall>c. \<not> contains header_name c \<longrightarrow> count_refs header_name (include_directive @ c) = 1"
    using include_counted_once by (simp add: header_name_def)
  show ?thesis using 1 2 3 4 by blast
qed


theorem constants_header_and_includes_witness:
  "map_of (files (create_constants_file demo_env [''DSRTOS_HEAP_SIZE'', ''DSRTOS_ERROR_FATAL'']
                    constants_project)) header_path
     = Some (constants_preamble @ heap_line @ fatal_line @ [nl] @ ''#endif'' @ [nl]) \<and>
   map_of (files (create_constants_file demo_env [''DSRTOS_HEAP_SIZE'', ''DSRTOS_ERROR_FATAL'']
                    constants_project)) ''src/main.c''
     = Some (include_directive @ main_text) \<and>
   count_refs header_name (include_directive @ main_text) = 1"
proof -
  let ?cs = "[''DSRTOS_HEAP_SIZE'', ''DSRTOS_ERROR_FATAL'']"
  have d: "distinct ?cs" by simp
  have s: "set ?cs = {''DSRTOS_ERROR_FATAL'', ''DSRTOS_HEAP_SIZE''}" by auto
  have e: "constants_header ?cs
           = constants_preamble @ heap_line @ fatal_line @ [nl] @ ''#endif'' @ [nl]"
    by code_simp
  have m: "map_of (files constants_project) ''src/main.c'' = Some main_text
           \<and> is_src_c ''src/main.c''"
    by code_simp
  have c: "(contains ''DSRTOS_ERROR_FATAL'' main_text \<or> contains ''DSRTOS_HEAP_SIZE'' main_text)
           \<and> \<not> contains header_name main_text"
    by code_simp
  from constants_header_and_includes[OF d s, of demo_env constants_project]
  have t: "map_of (files (create_constants_file demo_env ?cs constants_project)) header_path
             = Some (constants_header ?cs)"
    and u: "\<forall>p c. map_of (files constants_project) p = Some c \<and> is_src_c p \<longrightarrow>
            map_of (files (create_constants_file demo_env ?cs constants_project)) p
              = Some (if (contains ''DSRTOS_ERROR_FATAL'' c \<or> contains ''DSRTOS_HEAP_SIZE'' c)
                         \<and> \<not> contains header_name c
                      then include_directive @ c else c)"
    and v: "\<forall>c. \<not> contains header_name c \<longrightarrow> count_refs header_name (include_directive @ c) = 1"
    by blast+
  have u': "map_of (files (create_constants_file demo_env ?cs constants_project)) ''src/main.c''
     = Some (include_directive @ main_text)"
    using u[rule_format, OF m] c by (simp only: simp_thms if_True)
  have v': "count_refs header_name (include_directive @ main_text) = 1"
    using v[rule_format, of main_text] c by blast
  show ?thesis using t[unfolded e] u' v' by blast
qed

subsection \<open>Forward declarations\<close>

lemma rfind_none: "\<not> contains sub s \<Longrightarrow> rfind s sub = - 1"
proof -
  assume a: "\<not> contains sub s"
  have "\<And>i. \<not> prefix sub (drop i s)"
  proof
    fix i assume "prefix sub (drop i s)"
    then have "sublist sub (s @ [])" by (rule sublist_drop_prefix)
    then show False using a by (simp add: contains_sublist)
  qed
  then have "occurrences sub s = []" by (simp add: occurrences_def)
  then show ?thesis by (simp add: rfind_def)
qed

lemma upt_split: "i \<le> j \<Longrightarrow> j \<le> n \<Longrightarrow> [i..<n] = [i..<j] @ [j..<n]"
  using upt_add_eq_append[of i j "n - j"] by simp

lemma last_filter_upt:
  assumes "k < n" and "P k" and "\<forall>j. k < j \<and> j < n \<longrightarrow> \<not> P j"
  shows "rev (filter P [0..<n]) = k # rev (filter P [0..<k])"
proof -
  have "[0..<n] = [0..<Suc k] @ [Suc k..<n]"
    using assms(1) by (intro upt_split) simp_all
  moreover have "filter P [Suc k..<n] = []"
    using assms(3) by (auto simp: filter_empty_conv)
  ultimately show ?thesis using assms(2) by simp
qed

lemma rfind_last:
  assumes "s = head @ sub @ rest"
    and "\<forall>j. length head < j \<longrightarrow> \<not> prefix sub (drop j s)"
  shows "rfind s sub = int (length head)"
proof -
  have p: "prefix sub (drop (length head) s)" using assms(1) by simp
  have l: "length head < Suc (length s)" using assms(1) by simp
  have "rev (occurrences sub s)
        = length head # rev (filter (\<lambda>i. prefix sub (drop i s)) [0..<length head])"
    unfolding occurrences_def using last_filter_upt[OF l, of "\<lambda>i. prefix sub (drop i s)"] p assms(2)
    by blast
  then show ?thesis by (simp add: rfind_def)
qed

lemma find_from_first:
  assumes "start \<le> k" and "k < length s" and "s ! k = c"
    and "\<forall>j. start \<le> j \<and> j < k \<longrightarrow> s ! j \<noteq> c"
  shows "find_from s c start = int k"
proof -
  have "[start..<length s] = [start..<k] @ k # [Suc k..<length s]"
    using assms(1,2) upt_split[of start k "length s"] by (simp add: upt_conv_Cons)
  moreover have "filter (\<lambda>i. s ! i = c) [start..<k] = []"
    using assms(4) by (auto simp: filter_empty_conv)
  ultimately show ?thesis using assms(3) by (simp add: find_from_def)
qed


lemma insert_after_last_include:
  assumes call: "contains (symbol @ ''('') content"
    and nodecl: "\<not> re_search (declaration_line symbol) True content"
    and shape: "content = head @ ''#include'' @ line @ nl # tail"
    and pos: "head \<noteq> []"
    and line: "nl \<notin> set line"
    and last: "\<not> contains ''#include'' (''include'' @ line @ nl # tail)"
  shows "insert_declaration symbol content
         = Some (head @ ''#include'' @ line @ [nl] @ forward_declaration symbol @ tail)"
proof -
  have sym: "contains symbol content" using call by (rule contains_prefix_part)
  have later: "\<forall>j. length head < j \<longrightarrow> \<not> prefix ''#include'' (drop j content)"
  proof (intro allI impI notI)
    fix j assume j: "length head < j" and p: "prefix ''#include'' (drop j content)"
    obtain m where m: "j = Suc (length head + m)"
      using j by (metis less_iff_Suc_add add_Suc_right)
    have "drop j content = drop (j - Suc (length head)) (''include'' @ line @ nl # tail)"
      unfolding shape m by simp
    then have "sublist ''#include'' ((''include'' @ line @ nl # tail) @ [])"
      using p sublist_drop_prefix by metis
    then show False using last by (simp add: contains_sublist)
  qed
  have r: "rfind content ''#include'' = int (length head)"
    using rfind_last[of content head "''#include''" "line @ nl # tail"] shape later by simp
  define inc where "inc = ''#include'' @ line"
  have shape': "content = head @ inc @ nl # tail" unfolding shape inc_def by simp
  have li: "length inc = 8 + length line" unfolding inc_def by simp
  have ni: "nl \<notin> set inc" using line unfolding inc_def by (simp add: nl_def)
  let ?k = "length head + length inc"
  have k1: "content ! ?k = nl" unfolding shape' by (simp add: nth_append)
  have k2: "\<forall>j. length head \<le> j \<and> j < ?k \<longrightarrow> content ! j \<noteq> nl"
  proof (intro allI impI)
    fix j assume j: "length head \<le> j \<and> j < ?k"
    have lt: "j - length head < length inc" using j by arith
    have "\<not> j < length head" using j by arith
    then have e: "content ! j = inc ! (j - length head)"
      unfolding shape' using lt by (simp add: nth_append)
    note lt
    then have "inc ! (j - length head) \<in> set inc" by (rule nth_mem)
    then show "content ! j \<noteq> nl" using e ni by auto
  qed
  have kl: "?k < length content" unfolding shape' by simp
  have f: "find_from content nl (length head) = int ?k"
    by (rule find_from_first) (use k1 k2 kl in simp_all)
  have t: "take (Suc ?k) content = head @ inc @ [nl]"
    unfolding shape' by simp
  have d: "drop (Suc ?k) content = tail"
    unfolding shape' by simp
  have n: "nat (int ?k + 1) = Suc ?k" by simp
  have "insert_declaration symbol content
          = Some ((head @ inc @ [nl]) @ forward_declaration symbol @ tail)"
    unfolding insert_declaration_def Let_def r
    using sym call nodecl pos f t d n by simp
  then show ?thesis unfolding inc_def by simp
qed


lemma passed_over:
  assumes "\<not> contains (symbol @ ''('') c \<or> re_search (declaration_line symbol) True c
           \<or> \<not> contains ''#include'' c"
  shows "insert_declaration symbol c = None"
  using assms rfind_none[of "''#include''" c]
  by (auto simp: insert_declaration_def Let_def)

lemma forward_declare_skip:
  "\<forall>(q, c) \<in> set before. \<not> is_src_c q \<or> insert_declaration symbol c = None \<Longrightarrow>
   forward_declare symbol (before @ fs) = before @ forward_declare symbol fs"
  by (induction before) auto

lemma fold_forward_declare:
  "fold (\<lambda>symbol st'. st'\<lparr>files := forward_declare symbol (files st')\<rparr>) symbols st
   = st\<lparr>files := fold forward_declare symbols (files st)\<rparr>"
  by (induction symbols arbitrary: st) simp_all

lemma fix_forward_declaration_errors_passes:
  "fix_forward_declaration_errors env output st
   = st\<lparr>files := fold forward_declare (processed_symbols env output) (files st)\<rparr>"
  by (simp add: fix_forward_declaration_errors_def processed_symbols_def undeclared_patterns_def
      fold_forward_declare)

text \<open>
  C8, as stated, fails in three ways. The first file with a call site and without a
  declaration line has no include directive: it receives nothing, and the insertion goes
  to the second such file. A symbol that the output reports under both patterns is
  processed twice in one call, and the second pass, which finds the declaration in the
  file of the first pass, inserts into a further file: two files receive the insertion
  for that symbol in one round. And the test for an existing declaration is the pattern
  \<^verbatim>\<open>^.*SYMBOL\s*\(.*\)\s*;\<close>, which a call statement matches as well: a file that calls
  the symbol in a statement and declares it nowhere receives nothing.
\<close>

theorem insertion_not_first_nor_single:
  "is_src_c ''src/a.c'' \<and> contains ''foo('' no_include_text \<and>
   \<not> re_search (declaration_line ''foo'') True no_include_text \<and>
   processed_symbols demo_env file_scope_output = [''foo''] \<and>
   files (fix_forward_declaration_errors demo_env file_scope_output callers_project)
     = [(''src/a.c'', no_include_text),
        (''src/b.c'', ''/* boot */'' @ [nl] @ ''#include <stdint.h>'' @ [nl]
                       @ forward_declaration ''foo'' @ ''int y = foo() + 2;'' @ [nl]),
        (''src/c.c'', second_caller_text)] \<and>
   processed_symbols demo_env both_scopes_output = [''foo'', ''foo''] \<and>
   files (fix_forward_declaration_errors demo_env both_scopes_output callers_project)
     = [(''src/a.c'', no_include_text),
        (''src/b.c'', ''/* boot */'' @ [nl] @ ''#include <stdint.h>'' @ [nl]
                       @ forward_declaration ''foo'' @ ''int y = foo() + 2;'' @ [nl]),
        (''src/c.c'', ''/* task */'' @ [nl] @ ''#include <stdbool.h>'' @ [nl]
                       @ forward_declaration ''foo'' @ ''int z = foo() + 3;'' @ [nl])] \<and>
   contains ''foo('' statement_caller_text \<and>
   re_search (declaration_line ''foo'') True statement_caller_text \<and>
   fix_forward_declaration_errors demo_env file_scope_output
     (callers_project\<lparr>files := [(''src/d.c'', statement_caller_text)]\<rparr>)
     = callers_project\<lparr>files := [(''src/d.c'', statement_caller_text)]\<rparr>"
  by code_simp

text \<open>
  C8, amended. One call processes the matches of the first pattern and then those of
  the second, each symbol by one pass over the files as the passes before have left them.
  In a pass the files are visited in the order of the directory walk. Files that are not
  \<^verbatim>\<open>.c\<close> files below \<^verbatim>\<open>src\<close>, that have no call site \<^verbatim>\<open>symbol(\<close>, in which some line matches
  the pattern \<^verbatim>\<open>^.*SYMBOL\s*\(.*\)\s*;\<close> (a declaration or a call statement), or that contain
  no \<^verbatim>\<open>#include\<close> at all are passed over unchanged. The first file behind them that is a
  \<^verbatim>\<open>.c\<close> file below \<^verbatim>\<open>src\<close> with a call site and without a line matching the pattern, whose
  last \<^verbatim>\<open>#include\<close> stands behind the start of the file and is followed by a line break,
  receives the forward declaration directly behind the line of that last include, and no
  later file is touched in that pass. When the symbol is the only one the call processes,
  and is processed once, this is the whole effect of the call.
\<close>

theorem forward_declaration_first_file:
  assumes "\<forall>(q, c) \<in> set before.
             \<not> is_src_c q \<or> \<not> contains (symbol @ ''('') c
             \<or> re_search (declaration_line symbol) True c \<or> \<not> contains ''#include'' c"
    and "is_src_c p"
    and "contains (symbol @ ''('') content"
    and "\<not> re_search (declaration_line symbol) True content"
    and "content = head @ ''#include'' @ line @ nl # tail"
    and "head \<noteq> []"
    and "nl \<notin> set line"
    and "\<not> contains ''#include'' (''include'' @ line @ nl # tail)"
  shows "fix_forward_declaration_errors env output st
           = st\<lparr>files := fold forward_declare (processed_symbols env output) (files st)\<rparr> \<and>
         forward_declare symbol (before @ (p, content) # after)
           = before @ (p, head @ ''#include'' @ line @ [nl] @ forward_declaration symbol @ tail)
               # after \<and>
         (processed_symbols env output = [symbol] \<and> files st = before @ (p, content) # after
            \<longrightarrow> fix_forward_declaration_errors env output st
                = st\<lparr>files := before
                       @ (p, head @ ''#include'' @ line @ [nl] @ forward_declaration symbol @ tail)
                       # after\<rparr>)"
proof -
  have "\<forall>(q, c) \<in> set before. \<not> is_src_c q \<or> insert_declaration symbol c = None"
    using assms(1) passed_over by fastforce
  then have "forward_declare symbol (before @ (p, content) # after)
             = before @ forward_declare symbol ((p, content) # after)"
    by (rule forward_declare_skip)
  then have pass: "forward_declare symbol (before @ (p, content) # after)
           = before @ (p, head @ ''#include'' @ line @ [nl] @ forward_declaration symbol @ tail)
               # after"
    using insert_after_last_include[OF assms(3-8)] assms(2) by simp
  have all: "fix_forward_declaration_errors env output st
           = st\<lparr>files := fold forward_declare (processed_symbols env output) (files st)\<rparr>"
    by (rule fix_forward_declaration_errors_passes)
  show ?thesis using pass all by simp
qed

theorem forward_declaration_first_file_witness:
  "fix_forward_declaration_errors demo_env file_scope_output callers_project
   = callers_project\<lparr>files :=
       [(''src/a.c'', no_include_text),
        (''src/b.c'', ''/* boot */'' @ [nl] @ ''#include'' @ '' <stdint.h>'' @ [nl]
                       @ forward_declaration ''foo'' @ ''int y = foo() + 2;'' @ [nl]),
        (''src/c.c'', second_caller_text)]\<rparr>"
proof -
  have h1: "\<forall>(q, c) \<in> set [(''src/a.c'', no_include_text)].
             \<not> is_src_c q \<or> \<not> contains (''foo'' @ ''('') c
             \<or> re_search (declaration_line ''foo'') True c \<or> \<not> contains ''#include'' c"
    by code_simp
  have h2: "is_src_c ''src/b.c''" by code_simp
  have h3: "contains (''foo'' @ ''('') late_include_text" by code_simp
  have h4: "\<not> re_search (declaration_line ''foo'') True late_include_text" by code_simp
  have h5: "late_include_text = (''/* boot */'' @ [nl]) @ ''#include'' @ '' <stdint.h>''
              @ nl # (''int y = foo() + 2;'' @ [nl])"
    by (simp add: late_include_text_def)
  have h6: "''/* boot */'' @ [nl] \<noteq> []" by simp
  have h7: "nl \<notin> set '' <stdint.h>''" by code_simp
  have h8: "\<not> contains ''#include'' (''include'' @ '' <stdint.h>'' @ nl # (''int y = foo() + 2;'' @ [nl]))"
    by code_simp
  have s: "processed_symbols demo_env file_scope_output = [''foo'']" by code_simp
  have f: "files callers_project
           = [(''src/a.c'', no_include_text)] @ (''src/b.c'', late_include_text)
               # [(''src/c.c'', second_caller_text)]"
    by (simp add: callers_project_def)
  have "processed_symbols demo_env file_scope_output = [''foo''] \<and>
        files callers_project
           = [(''src/a.c'', no_include_text)] @ (''src/b.c'', late_include_text)
               # [(''src/c.c'', second_caller_text)]
        \<longrightarrow> fix_forward_declaration_errors demo_env file_scope_output callers_project
            = callers_project\<lparr>files := [(''src/a.c'', no_include_text)]
                 @ (''src/b.c'', (''/* boot */'' @ [nl]) @ ''#include'' @ '' <stdint.h>'' @ [nl]
                                  @ forward_declaration ''foo'' @ (''int y = foo() + 2;'' @ [nl]))
                 # [(''src/c.c'', second_caller_text)]\<rparr>"
    using forward_declaration_first_file[OF h1 h2 h3 h4 h5 h6 h7 h8,
        of demo_env file_scope_output callers_project "[(''src/c.c'', second_caller_text)]"]
    by blast
  then show ?thesis using s f by simp
qed

subsection \<open>Macro redefinitions\<close>

lemma strip_Nil: "strip_defines m b [] = []"
  by (simp add: strip_defines_def)

lemma take_is_space:
  "k \<le> length (takeWhile P r) \<Longrightarrow> list_all P (take k r)"
proof -
  assume "k \<le> length (takeWhile P r)"
  then have "take k r = take k (takeWhile P r)"
    by (metis append_eq_conv_conj takeWhile_dropWhile_id take_all_iff take_append diff_is_0_eq' take_0 append_Nil2 min.absorb_iff2 take_take)
  then show ?thesis by (metis in_set_takeD list_all_iff set_takeWhileD)
qed

lemma m_define_Some:
  assumes "m_define m bol s = Some (g, rest)"
  shows "bol \<and> (\<exists>ws z. ws \<noteq> [] \<and> list_all is_space ws \<and>
            s = ''#define'' @ ws @ m @ takeWhile (\<lambda>c. c \<noteq> nl) z @ rest \<and>
            rest = dropWhile (\<lambda>c. c \<noteq> nl) z)"
proof -
  from assms have bol: bol and p: "prefix ''#define'' s"
    by (auto simp: m_define_def split: if_splits)
  define r where "r = drop 7 s"
  have s: "s = ''#define'' @ r" using p by (auto simp: r_def prefix_def)
  define n where "n = length (takeWhile is_space r)"
  from assms bol p obtain k ks where
    f: "filter (\<lambda>k. prefix m (drop k r)) (rev [1..<Suc n]) = k # ks"
    and rest: "rest = dropWhile (\<lambda>c. c \<noteq> nl) (drop (k + length m) r)"
    by (auto simp: m_define_def Let_def r_def n_def split: list.splits)
  have "k \<in> set (filter (\<lambda>k. prefix m (drop k r)) (rev [1..<Suc n]))"
    unfolding f by simp
  then have k: "1 \<le> k" "k \<le> n" and pm: "prefix m (drop k r)" by auto
  obtain z where z: "drop k r = m @ z" using pm by (auto simp: prefix_def)
  have z': "drop (k + length m) r = z"
    using z by (metis append_eq_conv_conj drop_drop add.commute)
  have kr: "k \<le> length r" using k(2) length_takeWhile_le[of is_space r] by (simp add: n_def)
  have ws: "list_all is_space (take k r)" using k(2) unfolding n_def by (rule take_is_space)
  have ne: "take k r \<noteq> []" using k(1) kr by (cases r) auto
  have "r = take k r @ m @ z" using z by (metis append_take_drop_id)
  then have "s = ''#define'' @ take k r @ m @ takeWhile (\<lambda>c. c \<noteq> nl) z @ rest"
    using s rest z' by (metis takeWhile_dropWhile_id)
  then show ?thesis using bol ne ws rest z' by blast
qed

lemma m_define_matches:
  assumes "ws \<noteq> []" and "list_all is_space ws" and "prefix (''#define'' @ ws @ m) s"
  shows "m_define m True s \<noteq> None"
proof -
  obtain z where s: "s = ''#define'' @ ws @ m @ z"
    using assms(3) by (auto simp: prefix_def)
  define r where "r = drop 7 s"
  have r: "r = ws @ m @ z" unfolding r_def s by simp
  have "length ws \<le> length (takeWhile is_space r)"
    unfolding r using assms(2) by (simp add: list_all_iff takeWhile_append2)
  moreover have "1 \<le> length ws" using assms(1) by (cases ws) auto
  moreover have "prefix m (drop (length ws) r)" unfolding r by simp
  ultimately have "length ws \<in> set (rev [1..<Suc (length (takeWhile is_space r))])
                   \<and> prefix m (drop (length ws) r)"
    by (simp del: upt_Suc)
  then have "length ws \<in> set (filter (\<lambda>k. prefix m (drop k r))
                      (rev [1..<Suc (length (takeWhile is_space r))]))"
    by (simp only: set_filter) blast
  then have "filter (\<lambda>k. prefix m (drop k r)) (rev [1..<Suc (length (takeWhile is_space r))]) \<noteq> []"
    by (metis empty_iff list.set(1))
  moreover have "prefix ''#define'' s" unfolding s by simp
  ultimately show ?thesis
    by (auto simp: m_define_def Let_def r_def simp del: upt_Suc split: list.splits)
qed

lemma consume_define:
  "consume (m_define m) bol s = m_define m bol s"
proof (cases "m_define m bol s")
  case None
  then show ?thesis by (simp add: consume_def)
next
  case (Some a)
  obtain g rest where a: "a = (g, rest)" by (cases a)
  from m_define_Some[OF Some[unfolded a]] obtain ws z where
    "s = ''#define'' @ ws @ m @ takeWhile (\<lambda>c. c \<noteq> nl) z @ rest" by blast
  then have "length rest < length s" by simp
  then show ?thesis using Some a by (simp add: consume_def)
qed

lemma strip_no_match:
  "m_define m bol (c # cs) = None \<Longrightarrow> strip_defines m bol (c # cs) = c # strip_defines m (c = nl) cs"
  by (simp add: strip_defines_def consume_define)

lemma strip_not_bol: "strip_defines m False (c # cs) = c # strip_defines m (c = nl) cs"
  by (rule strip_no_match) (simp add: m_define_def)

lemma strip_match:
  assumes "m_define m bol (c # cs) = Some (g, rest)" and "nl \<notin> set m" and "m \<noteq> []"
  shows "strip_defines m bol (c # cs) = strip_defines m False rest \<and> bol \<and>
         (rest = [] \<or> (\<exists>t. rest = nl # t)) \<and>
         (\<exists>mt. c # cs = mt @ rest \<and> mt \<noteq> [] \<and> last mt \<noteq> nl)"
proof -
  from m_define_Some[OF assms(1)] obtain ws z where
    bol: bol and ws: "ws \<noteq> []" and
    s: "c # cs = ''#define'' @ ws @ m @ takeWhile (\<lambda>c. c \<noteq> nl) z @ rest" and
    rest: "rest = dropWhile (\<lambda>c. c \<noteq> nl) z" by blast
  define mt where "mt = ''#define'' @ ws @ m @ takeWhile (\<lambda>c. c \<noteq> nl) z"
  have e: "c # cs = mt @ rest" using s by (simp add: mt_def)
  have ne: "mt \<noteq> []" by (simp add: mt_def)
  have mt2: "mt = (''#define'' @ ws) @ (m @ takeWhile (\<lambda>c. c \<noteq> nl) z)"
    by (simp add: mt_def)
  have ne2: "m @ takeWhile (\<lambda>c. c \<noteq> nl) z \<noteq> []" using assms(3) by simp
  have "last mt = last (m @ takeWhile (\<lambda>c. c \<noteq> nl) z)"
    unfolding mt2 using ne2 by (rule last_appendR)
  then have "last mt \<in> set (m @ takeWhile (\<lambda>c. c \<noteq> nl) z)"
    using ne2 last_in_set by metis
  then have l: "last mt \<noteq> nl" using assms(2) by (auto dest: set_takeWhileD)
  have r: "rest = [] \<or> (\<exists>t. rest = nl # t)"
  proof (cases rest)
    case Nil
    then show ?thesis by simp
  next
    case (Cons x t)
    then have "dropWhile (\<lambda>c. c \<noteq> nl) z = x # t" using rest by simp
    then have "x = nl" by (simp add: dropWhile_eq_Cons_conv)
    then show ?thesis using Cons by simp
  qed
  have "length (c # cs) = length mt + length rest" unfolding e by simp
  then have "Suc (length cs) - length rest = length mt" by simp
  then have t: "take (Suc (length cs) - length rest) (c # cs) = mt"
    unfolding e by simp
  have "strip_defines m bol (c # cs) = strip_defines m False rest"
    using assms(1) t l by (simp add: strip_defines_def consume_define)
  then show ?thesis using bol r e ne l by blast
qed

lemma strip_False_line:
  "\<exists>l X Y. strip_defines m False s = l @ X \<and> s = l @ Y \<and> nl \<notin> set l \<and>
           ((X = [] \<and> Y = []) \<or> (\<exists>x y. X = nl # x \<and> Y = nl # y))"
proof (induction s)
  case Nil
  show ?case by (simp add: strip_Nil)
next
  case (Cons c cs)
  show ?case
  proof (cases "c = nl")
    case True
    have e1: "strip_defines m False (nl # cs) = nl # strip_defines m True cs"
      using strip_not_bol[of m nl cs] by simp
    have "strip_defines m False (c # cs) = [] @ nl # strip_defines m True cs \<and> c # cs = [] @ nl # cs
               \<and> nl \<notin> set ([]::string)
               \<and> ((nl # strip_defines m True cs = [] \<and> nl # cs = [])
                    \<or> (\<exists>x y. nl # strip_defines m True cs = nl # x \<and> nl # cs = nl # y))"
      unfolding True using e1 by simp
    then show ?thesis by (intro exI)
  next
    case False
    from Cons.IH obtain l X Y where
      h: "strip_defines m False cs = l @ X" "cs = l @ Y" "nl \<notin> set l"
         "(X = [] \<and> Y = []) \<or> (\<exists>x y. X = nl # x \<and> Y = nl # y)" by blast
    have a: "strip_defines m False (c # cs) = (c # l) @ X"
      using False h(1) strip_not_bol[of m c cs] by simp
    have b: "c # cs = (c # l) @ Y" using h(2) by simp
    have d: "nl \<notin> set (c # l)" using False h(3) by auto
    show ?thesis
      by (rule exI[of _ "c # l"], rule exI[of _ X], rule exI[of _ Y]) (use a b d h(4) in blast)
  qed
qed

lemma strip_same_line: "same_line (strip_defines m False s) s"
  unfolding same_line_def by (rule strip_False_line)

lemma same_line_Cons: "c \<noteq> nl \<Longrightarrow> same_line a b \<Longrightarrow> same_line (c # a) (c # b)"
proof -
  assume c: "c \<noteq> nl" and "same_line a b"
  then obtain l X Y where h: "a = l @ X" "b = l @ Y" "nl \<notin> set l"
    "(X = [] \<and> Y = []) \<or> (\<exists>x y. X = nl # x \<and> Y = nl # y)"
    unfolding same_line_def by blast
  have "c # a = (c # l) @ X \<and> c # b = (c # l) @ Y \<and> nl \<notin> set (c # l)"
    using h c by auto
  then show ?thesis unfolding same_line_def using h(4) by blast
qed

lemma prefix_before_nl:
  assumes "nl \<notin> set w"
  shows "prefix w (l @ nl # x) \<longleftrightarrow> prefix w l"
proof
  assume "prefix w (l @ nl # x)"
  then show "prefix w l" using assms by (rule prefix_stops_before)
next
  assume "prefix w l"
  then show "prefix w (l @ nl # x)" by (rule prefix_prefix)
qed

lemma prefix_same_line:
  assumes "same_line a b" and "nl \<notin> set w"
  shows "prefix w a = prefix w b"
proof -
  from assms(1) obtain l X Y where h: "a = l @ X" "b = l @ Y" "nl \<notin> set l"
    "(X = [] \<and> Y = []) \<or> (\<exists>x y. X = nl # x \<and> Y = nl # y)"
    unfolding same_line_def by blast
  from h(4) show ?thesis
  proof
    assume "X = [] \<and> Y = []"
    then show ?thesis using h by simp
  next
    assume "\<exists>x y. X = nl # x \<and> Y = nl # y"
    then obtain x y where "X = nl # x" "Y = nl # y" by blast
    then show ?thesis using h prefix_before_nl[OF assms(2)] by simp
  qed
qed

lemma takeWhile_upto: "c \<notin> set l \<Longrightarrow> takeWhile (\<lambda>a. a \<noteq> c) (l @ c # x) = l"
  by (induction l) auto

lemma prefix_upto_nl:
  assumes "nl \<notin> set w" and "nl \<notin> set l"
  shows "prefix (w @ [nl]) (l @ nl # x) \<longleftrightarrow> w = l"
proof
  assume p: "prefix (w @ [nl]) (l @ nl # x)"
  then obtain z where z: "l @ nl # x = (w @ [nl]) @ z" by (auto simp: prefix_def)
  have "takeWhile (\<lambda>c. c \<noteq> nl) (l @ nl # x) = l"
    using assms(2) by (rule takeWhile_upto)
  moreover have "takeWhile (\<lambda>c. c \<noteq> nl) (w @ nl # z) = w"
    using assms(1) by (rule takeWhile_upto)
  ultimately show "w = l" using z by simp
next
  assume "w = l"
  then show "prefix (w @ [nl]) (l @ nl # x)" by simp
qed

lemma prefix_nl_same_line:
  assumes "same_line a b" and "nl \<notin> set w"
  shows "prefix (w @ [nl]) a = prefix (w @ [nl]) b"
proof -
  from assms(1) obtain l X Y where h: "a = l @ X" "b = l @ Y" "nl \<notin> set l"
    "(X = [] \<and> Y = []) \<or> (\<exists>x y. X = nl # x \<and> Y = nl # y)"
    unfolding same_line_def by blast
  from h(4) show ?thesis
  proof
    assume "X = [] \<and> Y = []"
    then show ?thesis using h by simp
  next
    assume "\<exists>x y. X = nl # x \<and> Y = nl # y"
    then obtain x y where "X = nl # x" "Y = nl # y" by blast
    then show ?thesis using h prefix_upto_nl[OF assms(2) h(3)] by simp
  qed
qed

lemma define_at_iff:
  "define_at m s \<longleftrightarrow>
     (\<exists>ws. ws \<noteq> [] \<and> list_all hspace ws \<and> prefix (''#define'' @ ws @ m) s)"
proof
  assume d: "define_at m s"
  define r where "r = drop 7 s"
  have s: "s = ''#define'' @ r" using d by (auto simp: define_at_def r_def prefix_def)
  from d obtain k where k: "1 \<le> k" "k \<le> length (takeWhile hspace r)" "prefix m (drop k r)"
    by (auto simp: define_at_def r_def list_ex_iff simp del: upt_Suc)
  have kr: "k \<le> length r" using k(2) length_takeWhile_le[of hspace r] by simp
  have "take k r \<noteq> []" using k(1) kr by (cases r) auto
  moreover have "list_all hspace (take k r)" using k(2) by (rule take_is_space)
  moreover have "prefix (take k r @ m) r"
    using k(3) by (metis append_take_drop_id same_prefix_prefix)
  ultimately show "\<exists>ws. ws \<noteq> [] \<and> list_all hspace ws \<and> prefix (''#define'' @ ws @ m) s"
    using s by (intro exI[of _ "take k r"]) simp
next
  assume "\<exists>ws. ws \<noteq> [] \<and> list_all hspace ws \<and> prefix (''#define'' @ ws @ m) s"
  then obtain ws z where ws: "ws \<noteq> []" "list_all hspace ws" and s: "s = ''#define'' @ ws @ m @ z"
    by (auto simp: prefix_def)
  define r where "r = drop 7 s"
  have r: "r = ws @ m @ z" unfolding r_def s by simp
  have "length ws \<le> length (takeWhile hspace r)"
    unfolding r using ws(2) by (simp add: list_all_iff takeWhile_append2)
  moreover have "1 \<le> length ws" using ws(1) by (cases ws) auto
  moreover have "prefix m (drop (length ws) r)" unfolding r by simp
  ultimately have "\<exists>k \<in> set [1..<Suc (length (takeWhile hspace r))]. prefix m (drop k r)"
    by (intro bexI[of _ "length ws"]) (simp_all del: upt_Suc)
  moreover have "prefix ''#define'' s" unfolding s by simp
  ultimately show "define_at m s"
    unfolding define_at_def list_ex_iff r_def by blast
qed

lemma bare_define_iff:
  "bare_define s \<longleftrightarrow> (\<exists>ws. list_all hspace ws \<and> prefix (''#define'' @ ws @ [nl]) s)"
proof
  assume b: "bare_define s"
  define r where "r = drop 7 s"
  have s: "s = ''#define'' @ r" using b by (auto simp: bare_define_def r_def prefix_def)
  from b obtain t where t: "dropWhile hspace r = nl # t"
    by (auto simp: bare_define_def r_def starts_with_def split: list.splits)
  have "r = takeWhile hspace r @ nl # t" using t by (metis takeWhile_dropWhile_id)
  then have "prefix (''#define'' @ takeWhile hspace r @ [nl]) s"
    using s by (metis append.assoc append_Cons append_Nil prefixI)
  moreover have "list_all hspace (takeWhile hspace r)"
    by (simp add: list_all_iff) (meson set_takeWhileD)
  ultimately show "\<exists>ws. list_all hspace ws \<and> prefix (''#define'' @ ws @ [nl]) s" by blast
next
  assume "\<exists>ws. list_all hspace ws \<and> prefix (''#define'' @ ws @ [nl]) s"
  then obtain ws z where ws: "list_all hspace ws" and s: "s = ''#define'' @ ws @ [nl] @ z"
    by (auto simp: prefix_def)
  have "dropWhile hspace (ws @ nl # z) = nl # z"
    using ws by (simp add: list_all_iff dropWhile_append2 hspace_def)
  then show "bare_define s" unfolding bare_define_def s by (simp add: starts_with_def)
qed

lemma hspace_no_nl: "list_all hspace ws \<Longrightarrow> nl \<notin> set ws"
  by (auto simp: list_all_iff hspace_def)

lemma define_at_same_line:
  assumes "same_line a b" and "nl \<notin> set m"
  shows "define_at m a = define_at m b"
proof -
  have "\<And>ws. list_all hspace ws \<Longrightarrow>
          prefix (''#define'' @ ws @ m) a = prefix (''#define'' @ ws @ m) b"
  proof -
    fix ws assume "list_all hspace ws"
    then have "nl \<notin> set (''#define'' @ ws @ m)"
      using assms(2) hspace_no_nl by (auto simp: nl_def)
    then show "prefix (''#define'' @ ws @ m) a = prefix (''#define'' @ ws @ m) b"
      using assms(1) by (rule prefix_same_line[rotated])
  qed
  then show ?thesis unfolding define_at_iff by blast
qed

lemma bare_define_same_line:
  assumes "same_line a b"
  shows "bare_define a = bare_define b"
proof -
  have "\<And>ws. list_all hspace ws \<Longrightarrow>
          prefix (''#define'' @ ws @ [nl]) a = prefix (''#define'' @ ws @ [nl]) b"
  proof -
    fix ws assume "list_all hspace ws"
    then have "nl \<notin> set (''#define'' @ ws)"
      using hspace_no_nl by (auto simp: nl_def)
    then have "prefix ((''#define'' @ ws) @ [nl]) a = prefix ((''#define'' @ ws) @ [nl]) b"
      using assms by (rule prefix_nl_same_line[rotated])
    then show "prefix (''#define'' @ ws @ [nl]) a = prefix (''#define'' @ ws @ [nl]) b"
      by simp
  qed
  then show ?thesis unfolding bare_define_iff by blast
qed

lemma define_at_start [simp]: "\<not> define_at m []" "\<not> define_at m (nl # t)"
  by (simp_all add: define_at_def nl_def)

lemma bare_define_start [simp]: "\<not> bare_define []" "\<not> bare_define (nl # t)"
  by (simp_all add: bare_define_def nl_def)

lemma hspace_split:
  assumes "list_all is_space ws" and "\<not> list_all hspace ws"
  shows "\<exists>t. ws = takeWhile hspace ws @ nl # t"
proof -
  have "dropWhile hspace ws \<noteq> []"
    using assms(2) by (auto simp: list_all_iff dropWhile_eq_Nil_conv)
  then obtain x t where d: "dropWhile hspace ws = x # t" by (cases "dropWhile hspace ws") auto
  then have "\<not> hspace x" by (metis hd_dropWhile list.sel(1) list.discI)
  moreover have "x \<in> set ws" using d by (metis list.set_intros(1) set_dropWhileD)
  ultimately have "x = nl" using assms(1) by (auto simp: list_all_iff hspace_def)
  then show ?thesis using d by (metis takeWhile_dropWhile_id)
qed

lemma match_is_define_or_bare:
  assumes "m_define m bol s = Some (g, rest)"
  shows "bol \<and> (define_at m s \<or> bare_define s)"
proof -
  from m_define_Some[OF assms] obtain ws z where
    bol: bol and ws: "ws \<noteq> []" "list_all is_space ws" and
    s: "s = ''#define'' @ ws @ m @ takeWhile (\<lambda>c. c \<noteq> nl) z @ rest" by blast
  show ?thesis
  proof (cases "list_all hspace ws")
    case True
    have "prefix (''#define'' @ ws @ m) s" unfolding s by simp
    then have "define_at m s" unfolding define_at_iff using ws(1) True by blast
    then show ?thesis using bol by simp
  next
    case False
    from hspace_split[OF ws(2) False] obtain t where t: "ws = takeWhile hspace ws @ nl # t"
      by blast
    have "list_all hspace (takeWhile hspace ws)"
      by (simp add: list_all_iff) (meson set_takeWhileD)
    moreover have "prefix (''#define'' @ takeWhile hspace ws @ [nl]) s"
      by (subst s, subst t) simp
    ultimately have "bare_define s" unfolding bare_define_iff by blast
    then show ?thesis using bol by simp
  qed
qed

lemma define_at_matches:
  assumes "define_at m s"
  shows "m_define m True s \<noteq> None"
proof -
  from assms obtain ws where "ws \<noteq> []" "list_all hspace ws" "prefix (''#define'' @ ws @ m) s"
    unfolding define_at_iff by blast
  moreover from this have "list_all is_space ws" by (auto simp: list_all_iff hspace_def)
  ultimately show ?thesis by (intro m_define_matches)
qed

lemma re_search_behind:
  "mt \<noteq> [] \<Longrightarrow> re_search X (last mt = nl) rest \<Longrightarrow> re_search X b (mt @ rest)"
proof (induction mt arbitrary: b)
  case Nil
  then show ?case by simp
next
  case (Cons c mt)
  show ?case
  proof (cases "mt = []")
    case True
    then show ?thesis using Cons.prems by simp
  next
    case False
    then have "re_search X (c = nl) (mt @ rest)" using Cons by simp
    then show ?thesis by simp
  qed
qed

lemma re_search_line_start:
  assumes "\<not> P []" and "\<And>t. \<not> P (nl # t)" and "R = [] \<or> (\<exists>t. R = nl # t)"
  shows "re_search (\<lambda>b s. b \<and> P s) True R = re_search (\<lambda>b s. b \<and> P s) False R"
  using assms by (cases R) auto

lemma strip_rest_start:
  assumes "rest = [] \<or> (\<exists>t. rest = nl # t)"
  shows "strip_defines m False rest = [] \<or> (\<exists>t. strip_defines m False rest = nl # t)"
proof (cases rest)
  case Nil
  then show ?thesis by (simp add: strip_Nil)
next
  case (Cons x t)
  then have "x = nl" using assms by auto
  then show ?thesis using Cons strip_not_bol[of m nl t] by simp
qed

lemma strip_keeps_lines:
  assumes m: "nl \<notin> set m" "m \<noteq> []"
    and line: "\<And>a b. same_line a b \<Longrightarrow> P a = P b"
    and start: "\<not> P []" "\<And>t. \<not> P (nl # t)"
  shows "re_search (\<lambda>b s. b \<and> P s) b (strip_defines m b s) \<Longrightarrow> re_search (\<lambda>b s. b \<and> P s) b s"
proof (induction "length s" arbitrary: s b rule: less_induct)
  case less
  let ?X = "\<lambda>b s. b \<and> P s"
  show ?case
  proof (cases s)
    case Nil
    then show ?thesis using less.prems by (simp add: strip_Nil)
  next
    case (Cons c cs)
    show ?thesis
    proof (cases "m_define m b (c # cs)")
      case None
      have e: "strip_defines m b (c # cs) = c # strip_defines m (c = nl) cs"
        using None by (rule strip_no_match)
      from less.prems have "(b \<and> P (c # strip_defines m (c = nl) cs))
                            \<or> re_search ?X (c = nl) (strip_defines m (c = nl) cs)"
        unfolding Cons e by simp
      then show ?thesis
      proof
        assume a: "b \<and> P (c # strip_defines m (c = nl) cs)"
        then have cn: "c \<noteq> nl" using start(2) by auto
        then have "same_line (c # strip_defines m False cs) (c # cs)"
          using strip_same_line by (rule same_line_Cons)
        then have "P (c # cs)" using a cn line by auto
        then show ?thesis using a Cons by simp
      next
        assume "re_search ?X (c = nl) (strip_defines m (c = nl) cs)"
        then have "re_search ?X (c = nl) cs" using less.hyps[of cs "c = nl"] Cons by simp
        then show ?thesis using Cons by simp
      qed
    next
      case (Some a)
      obtain g rest where a: "a = (g, rest)" by (cases a)
      from strip_match[OF Some[unfolded a] m] obtain mt where
        e: "strip_defines m b (c # cs) = strip_defines m False rest" and b: b and
        r: "rest = [] \<or> (\<exists>t. rest = nl # t)" and
        mt: "c # cs = mt @ rest" "mt \<noteq> []" "last mt \<noteq> nl" by blast
      have "re_search ?X True (strip_defines m False rest)" using less.prems b unfolding Cons e by simp
      then have "re_search ?X False (strip_defines m False rest)"
        using re_search_line_start[of P, OF start strip_rest_start[OF r]] by simp
      moreover have "length rest < length s" using mt(1,2) Cons by (cases mt) auto
      ultimately have "re_search ?X False rest" using less.hyps[of rest False] by simp
      then have "re_search ?X b (mt @ rest)" using mt(2,3) re_search_behind[of mt ?X rest b] by simp
      then show ?thesis using Cons mt(1) by simp
    qed
  qed
qed

lemma strip_removes_defines:
  assumes m: "nl \<notin> set m" "m \<noteq> []"
  shows "\<not> re_search (\<lambda>b s. b \<and> define_at m s) b (strip_defines m b s)"
proof (induction "length s" arbitrary: s b rule: less_induct)
  case less
  let ?X = "\<lambda>b s. b \<and> define_at m s"
  show ?case
  proof (cases s)
    case Nil
    then show ?thesis by (simp add: strip_Nil)
  next
    case (Cons c cs)
    show ?thesis
    proof (cases "m_define m b (c # cs)")
      case None
      have e: "strip_defines m b (c # cs) = c # strip_defines m (c = nl) cs"
        using None by (rule strip_no_match)
      have 1: "\<not> re_search ?X (c = nl) (strip_defines m (c = nl) cs)"
        using less.hyps[of cs "c = nl"] Cons by simp
      have 2: "\<not> (b \<and> define_at m (c # strip_defines m (c = nl) cs))"
      proof
        assume a: "b \<and> define_at m (c # strip_defines m (c = nl) cs)"
        then have cn: "c \<noteq> nl" by auto
        then have "same_line (c # strip_defines m False cs) (c # cs)"
          using strip_same_line by (rule same_line_Cons)
        then have "define_at m (c # cs)"
          using a cn define_at_same_line[OF _ m(1)] by auto
        then have "m_define m True (c # cs) \<noteq> None" by (rule define_at_matches)
        then show False using None a by simp
      qed
      show ?thesis unfolding Cons e using 1 2 by simp
    next
      case (Some a)
      obtain g rest where a: "a = (g, rest)" by (cases a)
      from strip_match[OF Some[unfolded a] m] obtain mt where
        e: "strip_defines m b (c # cs) = strip_defines m False rest" and b: b and
        r: "rest = [] \<or> (\<exists>t. rest = nl # t)" and
        mt: "c # cs = mt @ rest" "mt \<noteq> []" "last mt \<noteq> nl" by blast
      have "length rest < length s" using mt(1,2) Cons by (cases mt) auto
      then have "\<not> re_search ?X False (strip_defines m False rest)" using less.hyps[of rest False] by simp
      then have "\<not> re_search ?X True (strip_defines m False rest)"
        using re_search_line_start[of "define_at m", OF _ _ strip_rest_start[OF r]] by simp
      then show ?thesis unfolding Cons e using b by simp
    qed
  qed
qed

lemma strip_unchanged:
  "\<not> re_search (\<lambda>b s. b \<and> define_at m s) b s \<Longrightarrow>
   \<not> re_search (\<lambda>b s. b \<and> bare_define s) b s \<Longrightarrow> strip_defines m b s = s"
proof (induction s arbitrary: b)
  case Nil
  show ?case by (simp add: strip_Nil)
next
  case (Cons c cs)
  have "m_define m b (c # cs) = None"
  proof (cases "m_define m b (c # cs)")
    case None
    then show ?thesis .
  next
    case (Some a)
    obtain g rest where a: "a = (g, rest)" by (cases a)
    from match_is_define_or_bare[OF Some[unfolded a]] Cons.prems show ?thesis by auto
  qed
  then have "strip_defines m b (c # cs) = c # strip_defines m (c = nl) cs" by (rule strip_no_match)
  then show ?case using Cons by simp
qed

lemma re_sub_strip: "re_sub (m_define m) (\<lambda>t g. []) c = strip_defines m True c"
  by (simp add: re_sub_def strip_defines_def)

lemma strip_all_simps:
  "strip_all [] c = c" "strip_all (m # ms) c = strip_all ms (strip_defines m True c)"
  by (simp_all add: strip_all_def re_sub_strip)

lemma remove_duplicate_macros_files:
  "remove_duplicate_macros ms st =
     st\<lparr>files := map (\<lambda>(p, c). if is_src_c p then (p, strip_all ms c) else (p, c)) (files st)\<rparr>"
proof (induction ms arbitrary: st)
  case Nil
  have "map (\<lambda>(p, c). if is_src_c p then (p, strip_all [] c) else (p, c)) (files st) = files st"
    by (rule map_idI) (auto simp: strip_all_simps)
  then show ?case by (simp add: remove_duplicate_macros_def)
next
  case (Cons m ms)
  have "remove_duplicate_macros (m # ms) st
        = remove_duplicate_macros ms (st\<lparr>files := map (strip_macro m) (files st)\<rparr>)"
    by (simp add: remove_duplicate_macros_def)
  also have "\<dots> = st\<lparr>files := map (\<lambda>(p, c). if is_src_c p then (p, strip_all ms c) else (p, c))
                               (map (strip_macro m) (files st))\<rparr>"
    by (simp add: Cons.IH)
  also have "map (\<lambda>(p, c). if is_src_c p then (p, strip_all ms c) else (p, c))
               (map (strip_macro m) (files st))
             = map (\<lambda>(p, c). if is_src_c p then (p, strip_all (m # ms) c) else (p, c)) (files st)"
    by (auto simp: strip_macro_def strip_all_simps re_sub_strip)
  finally show ?case .
qed

lemma strip_keeps_no_define:
  assumes "nl \<notin> set m'" "m' \<noteq> []" "nl \<notin> set m" "\<not> has_define m c"
  shows "\<not> has_define m (strip_defines m' True c)"
  using assms(4) strip_keeps_lines[OF assms(1,2), of "define_at m" True c]
    define_at_same_line[OF _ assms(3)]
  unfolding has_define_def by auto

lemma strip_keeps_no_bare:
  assumes "nl \<notin> set m'" "m' \<noteq> []" "\<not> has_bare_define c"
  shows "\<not> has_bare_define (strip_defines m' True c)"
  using assms(3) strip_keeps_lines[OF assms(1,2), of bare_define True c]
    bare_define_same_line
  unfolding has_bare_define_def by auto

lemma strip_all_keeps_no_define:
  "\<forall>m' \<in> set ms. m' \<noteq> [] \<and> nl \<notin> set m' \<Longrightarrow> nl \<notin> set m \<Longrightarrow> \<not> has_define m c \<Longrightarrow>
   \<not> has_define m (strip_all ms c)"
  by (induction ms arbitrary: c) (auto simp: strip_all_simps strip_keeps_no_define)

lemma strip_all_keeps_no_bare:
  "\<forall>m' \<in> set ms. m' \<noteq> [] \<and> nl \<notin> set m' \<Longrightarrow> \<not> has_bare_define c \<Longrightarrow>
   \<not> has_bare_define (strip_all ms c)"
  by (induction ms arbitrary: c) (auto simp: strip_all_simps strip_keeps_no_bare)

lemma strip_all_complete:
  "\<forall>m' \<in> set ms. m' \<noteq> [] \<and> nl \<notin> set m' \<Longrightarrow> m \<in> set ms \<Longrightarrow> \<not> has_define m (strip_all ms c)"
proof (induction ms arbitrary: c)
  case Nil
  then show ?case by simp
next
  case (Cons a ms)
  show ?case
  proof (cases "m = a")
    case True
    have ok: "a \<noteq> [] \<and> nl \<notin> set a" using Cons.prems(1) by simp
    then have "\<not> has_define a (strip_defines a True c)"
      using strip_removes_defines[of a True c] unfolding has_define_def by simp
    then show ?thesis
      using True Cons.prems(1) ok strip_all_keeps_no_define[of ms a "strip_defines a True c"]
      by (simp add: strip_all_simps)
  next
    case False
    then show ?thesis using Cons by (simp add: strip_all_simps)
  qed
qed

lemma strip_all_unchanged:
  "\<forall>m \<in> set ms. \<not> has_define m c \<Longrightarrow> \<not> has_bare_define c \<Longrightarrow> strip_all ms c = c"
proof (induction ms)
  case Nil
  show ?case by (simp add: strip_all_simps)
next
  case (Cons a ms)
  have "strip_defines a True c = c"
    using Cons.prems strip_unchanged[of a True c]
    unfolding has_define_def has_bare_define_def by simp
  then show ?case using Cons by (simp add: strip_all_simps)
qed

lemma strip_all_twice:
  assumes "\<forall>m \<in> set ms. m \<noteq> [] \<and> nl \<notin> set m" and "\<not> has_bare_define c"
  shows "strip_all ms (strip_all ms c) = strip_all ms c"
  using assms strip_all_complete[OF assms(1)] strip_all_keeps_no_bare[OF assms]
  by (intro strip_all_unchanged) auto

text \<open>
  C10, amended. For macro names that are not empty and hold no line break: after one
  call, no \<^verbatim>\<open>.c\<close> file below \<^verbatim>\<open>src\<close> has a line that begins with \<^verbatim>\<open>#define\<close>, blanks and a
  macro of the set (lines defining a longer name that starts with a given name are gone as
  well, no word boundary being checked). If in no \<^verbatim>\<open>.c\<close> file below \<^verbatim>\<open>src\<close> a line consists
  of \<^verbatim>\<open>#define\<close> followed only by blanks, a second call with the same macros leaves the
  project as the first call left it.
\<close>

theorem remove_duplicate_macros_complete:
  assumes "\<forall>m \<in> set macros. m \<noteq> [] \<and> nl \<notin> set m"
  shows "(\<forall>(p, c) \<in> set (files (remove_duplicate_macros macros st)).
            is_src_c p \<longrightarrow> (\<forall>m \<in> set macros. \<not> has_define m c)) \<and>
         ((\<forall>(p, c) \<in> set (files st). is_src_c p \<longrightarrow> \<not> has_bare_define c) \<longrightarrow>
            remove_duplicate_macros macros (remove_duplicate_macros macros st)
              = remove_duplicate_macros macros st)"
proof (intro conjI impI)
  show "\<forall>(p, c) \<in> set (files (remove_duplicate_macros macros st)).
          is_src_c p \<longrightarrow> (\<forall>m \<in> set macros. \<not> has_define m c)"
    using strip_all_complete[OF assms]
    by (auto simp: remove_duplicate_macros_files split: if_splits)
next
  assume bare: "\<forall>(p, c) \<in> set (files st). is_src_c p \<longrightarrow> \<not> has_bare_define c"
  let ?g = "\<lambda>(p, c). if is_src_c p then (p, strip_all macros c) else (p, c)"
  have "map ?g (map ?g (files st)) = map ?g (files st)"
    using bare strip_all_twice[OF assms] by (auto split: if_splits)
  then show "remove_duplicate_macros macros (remove_duplicate_macros macros st)
               = remove_duplicate_macros macros st"
    by (simp add: remove_duplicate_macros_files)
qed

theorem remove_duplicate_macros_complete_witness:
  "remove_duplicate_macros [''FOO'', ''BAZ'']
     (remove_duplicate_macros [''FOO'', ''BAZ''] clean_macro_project)
     = remove_duplicate_macros [''FOO'', ''BAZ''] clean_macro_project \<and>
   (''src/m.c'', [nl, nl, nl] @ ''int x = FOO;'' @ [nl])
     \<in> set (files (remove_duplicate_macros [''FOO'', ''BAZ''] clean_macro_project)) \<and>
   \<not> has_define ''FOO'' ([nl, nl, nl] @ ''int x = FOO;'' @ [nl]) \<and>
   \<not> has_define ''BAZ'' ([nl, nl, nl] @ ''int x = FOO;'' @ [nl])"
proof -
  let ?ms = "[''FOO'', ''BAZ'']"
  let ?t = "[nl, nl, nl] @ ''int x = FOO;'' @ [nl]"
  have h: "\<forall>m \<in> set ?ms. m \<noteq> [] \<and> nl \<notin> set m" by (simp add: nl_def)
  have b: "\<forall>(p, c) \<in> set (files clean_macro_project). is_src_c p \<longrightarrow> \<not> has_bare_define c"
    by code_simp
  have f: "(''src/m.c'', ?t) \<in> set (files (remove_duplicate_macros ?ms clean_macro_project))"
    by code_simp
  have c: "is_src_c ''src/m.c''" by code_simp
  from remove_duplicate_macros_complete[OF h, of clean_macro_project]
  have 1: "\<forall>(p, c) \<in> set (files (remove_duplicate_macros ?ms clean_macro_project)).
            is_src_c p \<longrightarrow> (\<forall>m \<in> set ?ms. \<not> has_define m c)"
    and 2: "(\<forall>(p, c) \<in> set (files clean_macro_project). is_src_c p \<longrightarrow> \<not> has_bare_define c) \<longrightarrow>
            remove_duplicate_macros ?ms (remove_duplicate_macros ?ms clean_macro_project)
              = remove_duplicate_macros ?ms clean_macro_project"
    by blast+
  have 3: "\<forall>m \<in> set ?ms. \<not> has_define m ?t" using 1 f c by blast
  have 4: "\<not> has_define ''FOO'' ?t \<and> \<not> has_define ''BAZ'' ?t" using 3 by simp
  show ?thesis using 2 b f 4 by blast
qed

text \<open>
  C10, as stated, fails in its idempotence: the blanks of the pattern reach over line
  breaks. With a bare \<^verbatim>\<open>#define\<close> line before the definition of \<^verbatim>\<open>FOO\<close> and the word
  \<^verbatim>\<open>FOO\<close> on the line behind it, the first call empties the definition line, and the second
  call then matches from the bare directive to the word and empties the file.
\<close>

theorem split_define_second_pass:
  "files (remove_duplicate_macros [''FOO''] split_define_project)
     = [(''src/m.c'', ''#define'' @ [nl, nl] @ ''FOO'')] \<and>
   files (remove_duplicate_macros [''FOO'']
            (remove_duplicate_macros [''FOO''] split_define_project))
     = [(''src/m.c'', [])]"
  by code_simp

end
